theory Spec2Isabelle
  imports Main "HOL-Library.Product_Lexorder" "HOL-Library.Sublist"
begin

section \<open>Python values used by \<open>accountancy/_payment.py\<close>\<close>

text \<open>
  A Python \<open>str\<close> is modelled by its UTF-8 encoding, a \<open>string\<close> of bytes. Every string
  operation of the module (equality, \<open>startswith\<close>, concatenation, the regular expression
  over ASCII classes and the negated class \<open>[^\|]\<close>) gives the same answer on the encoding,
  since the byte \<open>0x7C\<close> of \<open>|\<close> never occurs inside a multi-byte sequence.
  Python's \<open>int\<close> is \<open>int\<close>. Exceptions are values of \<open>exn\<close>; a function that can raise
  returns \<open>exn + 'a\<close>.
\<close>

datatype exn = IndexError | ValueError | TypeError | OverflowError

text \<open>Sequencing: the first exception raised ends the computation.\<close>

definition and_then :: "exn + 'a \<Rightarrow> ('a \<Rightarrow> exn + 'b) \<Rightarrow> exn + 'b" where
  "and_then m f = (case m of Inl e \<Rightarrow> Inl e | Inr x \<Rightarrow> f x)"

text \<open>
  The logger is the list of records it has received, oldest first. Only the records of
  severity error and warning are kept. Of a \<open>debug\<close> call the model keeps what the
  caller can observe: building its text formats integers, which can raise (see \<open>debug\<close>
  below).
\<close>

datatype level = ERROR | WARNING

type_synonym logger = "(level \<times> string) list"

subsection \<open>Decimal text of integers\<close>

definition is_digit :: "char \<Rightarrow> bool" where
  "is_digit c = (48 \<le> (of_char c :: int) \<and> (of_char c :: int) \<le> 57)"

definition digit_of :: "int \<Rightarrow> char" where
  "digit_of d = char_of (48 + d)"

definition digit_val :: "char \<Rightarrow> int" where
  "digit_val c = of_char c - 48"

text \<open>The decimal digits of an integer that is not negative.\<close>

function decimal :: "int \<Rightarrow> string" where
  "decimal n = (if n < 10 then [digit_of n] else decimal (n div 10) @ [digit_of (n mod 10)])"
  by pat_completeness auto
termination
  by (relation "measure nat") auto

declare decimal.simps [simp del]

text \<open>
  CPython limits the conversion between \<open>int\<close> and decimal text to
  \<open>sys.int_max_str_digits\<close> digits, 4300 unless configured otherwise: \<open>int()\<close> of a text
  with more digits, and \<open>str()\<close>, \<open>repr()\<close> or formatting of an integer with more digits,
  raise \<open>ValueError\<close>. The sign does not count; leading zeros of a text do.
\<close>

definition int_max_str_digits :: int where
  "int_max_str_digits = 4300"

definition printable :: "int \<Rightarrow> bool" where
  "printable i = (int (length (decimal \<bar>i\<bar>)) \<le> int_max_str_digits)"

text \<open>\<open>str(i)\<close> and \<open>f'{i}'\<close> for an \<open>int\<close>: the decimal text, and the call.\<close>

definition str_text :: "int \<Rightarrow> string" where
  "str_text i = (if i < 0 then CHR ''-'' # decimal (- i) else decimal i)"

definition str :: "int \<Rightarrow> exn + string" where
  "str i = (if printable i then Inr (str_text i) else Inl ValueError)"

text \<open>\<open>f'{i:0w}'\<close>: sign-aware zero padding to the total width \<open>w\<close>.\<close>

definition format_0_text :: "nat \<Rightarrow> int \<Rightarrow> string" where
  "format_0_text w i =
     (if i < 0
      then CHR ''-'' # replicate (w - 1 - length (decimal (- i))) CHR ''0'' @ decimal (- i)
      else replicate (w - length (decimal i)) CHR ''0'' @ decimal i)"

definition format_0 :: "nat \<Rightarrow> int \<Rightarrow> exn + string" where
  "format_0 w i = (if printable i then Inr (format_0_text w i) else Inl ValueError)"

text \<open>
  An f-string: its parts are evaluated from left to right and joined; the first part
  that raises ends the evaluation.
\<close>

fun fstring :: "(exn + string) list \<Rightarrow> exn + string" where
  "fstring [] = Inr []"
| "fstring (p # ps) = and_then p (\<lambda>s. and_then (fstring ps) (\<lambda>t. Inr (s @ t)))"

text \<open>
  A \<open>logger.debug(f'...')\<close> call: the text is built before the call, so the call raises
  \<open>ValueError\<close> unless every integer that the text formats is printable. The argument
  says whether they all are.
\<close>

definition debug :: "bool \<Rightarrow> exn + unit" where
  "debug ok = (if ok then Inr () else Inl ValueError)"

definition int_of_digits :: "string \<Rightarrow> int" where
  "int_of_digits ds = foldl (\<lambda>a c. 10 * a + digit_val c) 0 ds"

text \<open>
  \<open>int(x)\<close> for a regular-expression group: \<open>None\<close> raises \<open>TypeError\<close>; text that is not
  an optional minus sign and decimal digits, or that has more than
  \<open>int_max_str_digits\<close> digits, raises \<open>ValueError\<close> (the module only passes groups
  matched by \<open>[0-9]+\<close>, \<open>[0-9]{2}\<close> or \<open>-?[0-9]+\<close>).
\<close>

definition py_int :: "string option \<Rightarrow> exn + int" where
  "py_int x =
     (case x of
        None \<Rightarrow> Inl TypeError
      | Some s \<Rightarrow>
          if s \<noteq> [] \<and> hd s = CHR ''-''
          then (if tl s \<noteq> [] \<and> list_all is_digit (tl s)
                   \<and> int (length (tl s)) \<le> int_max_str_digits
                then Inr (- int_of_digits (tl s)) else Inl ValueError)
          else (if s \<noteq> [] \<and> list_all is_digit s \<and> int (length s) \<le> int_max_str_digits
                then Inr (int_of_digits s) else Inl ValueError))"

subsection \<open>List indexing\<close>

text \<open>\<open>xs[0]\<close> and \<open>xs[-1]\<close>: both raise \<open>IndexError\<close> on the empty list.\<close>

definition index_first :: "'a list \<Rightarrow> exn + 'a" where
  "index_first xs = (case xs of [] \<Rightarrow> Inl IndexError | x # _ \<Rightarrow> Inr x)"

definition index_last :: "'a list \<Rightarrow> exn + 'a" where
  "index_last xs = (if xs = [] then Inl IndexError else Inr (last xs))"

subsection \<open>Regular expressions with backtracking\<close>

text \<open>
  The fragment of \<open>re\<close> that the module uses. \<open>Cls p\<close> is one character of a class,
  \<open>Plus p\<close> is the greedy \<open>[...]+\<close>, \<open>Times n p\<close> is \<open>[...]{n}\<close>, \<open>Opt\<close> is the greedy \<open>?\<close>,
  \<open>Group\<close> is a named group. \<open>matches r s g\<close> lists every way \<open>r\<close> matches at the start of
  \<open>s\<close>, in the order in which the backtracking matcher tries them, each with the text that
  is left and the groups set so far; \<open>re.match\<close> takes the first.
\<close>

datatype regex =
    Cls "char \<Rightarrow> bool"
  | Plus "char \<Rightarrow> bool"
  | Times nat "char \<Rightarrow> bool"
  | Opt regex
  | Seq regex regex
  | Alt regex regex
  | Group string regex

type_synonym groups = "string \<rightharpoonup> string"

fun plus_splits :: "(char \<Rightarrow> bool) \<Rightarrow> string \<Rightarrow> string list" where
  "plus_splits p [] = []"
| "plus_splits p (c # cs) = (if p c then plus_splits p cs @ [cs] else [])"

fun matches :: "regex \<Rightarrow> string \<Rightarrow> groups \<Rightarrow> (string \<times> groups) list" where
  "matches (Cls p) s g = (case s of [] \<Rightarrow> [] | c # cs \<Rightarrow> if p c then [(cs, g)] else [])"
| "matches (Plus p) s g = map (\<lambda>s'. (s', g)) (plus_splits p s)"
| "matches (Times n p) s g =
     (if n \<le> length s \<and> list_all p (take n s) then [(drop n s, g)] else [])"
| "matches (Opt r) s g = matches r s g @ [(s, g)]"
| "matches (Seq r1 r2) s g = concat (map (\<lambda>(s', g'). matches r2 s' g') (matches r1 s g))"
| "matches (Alt r1 r2) s g = matches r1 s g @ matches r2 s g"
| "matches (Group n r) s g =
     map (\<lambda>(s', g'). (s', g'(n \<mapsto> take (length s - length s') s))) (matches r s g)"

definition re_match :: "regex \<Rightarrow> string \<Rightarrow> groups option" where
  "re_match r s = (case matches r s Map.empty of [] \<Rightarrow> None | (_, g) # _ \<Rightarrow> Some g)"

definition lit :: "char \<Rightarrow> regex" where
  "lit c = Cls (\<lambda>x. x = c)"

definition not_bar :: "char \<Rightarrow> bool" where
  "not_bar c = (c \<noteq> CHR ''|'')"

definition is_bar :: "char \<Rightarrow> bool" where
  "is_bar c = (c = CHR ''|'')"

section \<open>The data model\<close>

record MonthlyReportLine =
  line_text :: string
  line_number :: int

record ReceiptItem =
  name :: string
  price :: int
  item_line_number :: int

record Receipt =
  year :: int
  month :: int
  day :: int
  hour :: int
  minute :: int
  store :: string
  items :: "ReceiptItem list"
  receipt_line_number :: int

record TableKey =
  key_day :: int
  key_hour :: int
  key_minute :: int
  key_store :: string
  key_line_number :: int

record TableRow =
  key :: "TableKey option"
  item :: "ReceiptItem option"
  row_line_number :: int

subsection \<open>\<open>Receipt\<close>\<close>

text \<open>
  The integers that \<open>repr\<close> of a value formats are all printable.
\<close>

definition repr_ok_item :: "ReceiptItem \<Rightarrow> bool" where
  "repr_ok_item it = (printable (price it) \<and> printable (item_line_number it))"

definition repr_ok_key :: "TableKey \<Rightarrow> bool" where
  "repr_ok_key k =
     (printable (key_day k) \<and> printable (key_hour k) \<and> printable (key_minute k)
      \<and> printable (key_line_number k))"

definition repr_ok_row :: "TableRow \<Rightarrow> bool" where
  "repr_ok_row row =
     ((case key row of None \<Rightarrow> True | Some k \<Rightarrow> repr_ok_key k)
      \<and> (case item row of None \<Rightarrow> True | Some i \<Rightarrow> repr_ok_item i)
      \<and> printable (row_line_number row))"

definition repr_ok_receipt :: "Receipt \<Rightarrow> bool" where
  "repr_ok_receipt r =
     (printable (year r) \<and> printable (month r) \<and> printable (day r) \<and> printable (hour r)
      \<and> printable (minute r) \<and> list_all repr_ok_item (items r)
      \<and> printable (receipt_line_number r))"

text \<open>
  \<open>datetime.datetime(year, month, day, hour, minute)\<close> first converts its arguments to
  C \<open>int\<close>s and raises \<open>OverflowError\<close> for one that does not fit in 32 bits; then it raises
  \<open>ValueError\<close> unless the fields form a date of the proleptic Gregorian calendar with
  \<open>1 \<le> year \<le> 9999\<close> and a time of day. Datetimes compare as the tuples of their fields.
\<close>

definition c_int :: "int \<Rightarrow> bool" where
  "c_int i = (- 2147483648 \<le> i \<and> i \<le> 2147483647)"


definition is_leap :: "int \<Rightarrow> bool" where
  "is_leap y = (y mod 4 = 0 \<and> (y mod 100 \<noteq> 0 \<or> y mod 400 = 0))"

definition days_in_month :: "int \<Rightarrow> int \<Rightarrow> int" where
  "days_in_month y m =
     (if m = 2 then (if is_leap y then 29 else 28)
      else if m = 4 \<or> m = 6 \<or> m = 9 \<or> m = 11 then 30 else 31)"

type_synonym datetime = "int \<times> int \<times> int \<times> int \<times> int"

definition valid_datetime :: "int \<Rightarrow> int \<Rightarrow> int \<Rightarrow> int \<Rightarrow> int \<Rightarrow> bool" where
  "valid_datetime y m d h mi =
     (1 \<le> y \<and> y \<le> 9999 \<and> 1 \<le> m \<and> m \<le> 12 \<and> 1 \<le> d \<and> d \<le> days_in_month y m
      \<and> 0 \<le> h \<and> h \<le> 23 \<and> 0 \<le> mi \<and> mi \<le> 59)"

definition datetime :: "Receipt \<Rightarrow> exn + datetime" where
  "datetime r =
     (if \<not> (c_int (year r) \<and> c_int (month r) \<and> c_int (day r) \<and> c_int (hour r)
             \<and> c_int (minute r))
      then Inl OverflowError
      else if valid_datetime (year r) (month r) (day r) (hour r) (minute r)
      then Inr (year r, month r, day r, hour r, minute r)
      else Inl ValueError)"

definition dt_day :: "datetime \<Rightarrow> int" where
  "dt_day t = (case t of (y, m, d, h, mi) \<Rightarrow> d)"

definition last_line_number :: "Receipt \<Rightarrow> int" where
  "last_line_number r = receipt_line_number r + int (length (items r)) - 1"

text \<open>
  \<open>to_table_rows\<close>: the loop appends to \<open>rows\<close>; the first item (while \<open>rows\<close> is still
  empty) is rendered with the key cells, every later one behind three bars.
\<close>

fun to_table_rows_loop ::
  "Receipt \<Rightarrow> string list \<Rightarrow> ReceiptItem list \<Rightarrow> exn + string list" where
  "to_table_rows_loop r rows [] = Inr rows"
| "to_table_rows_loop r rows (it # its) =
     and_then
       (if rows \<noteq> []
        then fstring [Inr ''||||'', Inr (name it), Inr ''|'', str (price it), Inr ''|'']
        else fstring [Inr ''|'', str (day r),
                      Inr ''|'', format_0 2 (hour r), Inr '':'', format_0 2 (minute r),
                      Inr ''|'', Inr (store r),
                      Inr ''|'', Inr (name it), Inr ''|'', str (price it), Inr ''|''])
       (\<lambda>row. to_table_rows_loop r (rows @ [row]) its)"

definition to_table_rows :: "Receipt \<Rightarrow> exn + string list" where
  "to_table_rows r = to_table_rows_loop r [] (items r)"

subsection \<open>\<open>_TableRow\<close>\<close>

definition is_empty :: "TableRow \<Rightarrow> bool" where
  "is_empty row = (key row = None \<and> item row = None)"

text \<open>
  The pattern of \<open>parse_line\<close>, group for group: the key cells
  \<^verbatim>\<open>\|(?P<day>[0-9]+)\|(?P<hour>[0-9]{2}):(?P<minute>[0-9]{2})\|(?P<store>[^\|]+)\<close>
  or \<^verbatim>\<open>\|{3}\<close>, then the item cells
  \<^verbatim>\<open>\|(?P<item>[^\|]+)\|(?P<price>-?[0-9]+)\|\<close> or \<^verbatim>\<open>\|{3}\<close>.
\<close>

definition key_re :: regex where
  "key_re =
     Seq (lit CHR ''|'') (Seq (Group ''day'' (Plus is_digit))
    (Seq (lit CHR ''|'') (Seq (Group ''hour'' (Times 2 is_digit))
    (Seq (lit CHR '':'') (Seq (Group ''minute'' (Times 2 is_digit))
    (Seq (lit CHR ''|'') (Group ''store'' (Plus not_bar))))))))"

definition price_re :: regex where
  "price_re = Seq (Opt (lit CHR ''-'')) (Plus is_digit)"

definition item_re :: regex where
  "item_re =
     Seq (lit CHR ''|'') (Seq (Group ''item'' (Plus not_bar))
    (Seq (lit CHR ''|'') (Seq (Group ''price'' price_re)
    (lit CHR ''|''))))"

definition row_re :: regex where
  "row_re = Seq (Alt key_re (Times 3 is_bar)) (Alt item_re (Times 3 is_bar))"

text \<open>
  The two blocks of \<open>parse_line\<close> that build the key and the item from the groups of
  the match; the arguments of a constructor are evaluated from left to right.
\<close>

definition table_key_of :: "groups \<Rightarrow> int \<Rightarrow> exn + TableKey option" where
  "table_key_of g n =
     (if g ''day'' \<noteq> None
      then and_then (py_int (g ''day'')) (\<lambda>d.
           and_then (py_int (g ''hour'')) (\<lambda>h.
           and_then (py_int (g ''minute'')) (\<lambda>mi.
           and_then (case g ''store'' of None \<Rightarrow> Inl TypeError | Some s \<Rightarrow> Inr s) (\<lambda>s.
           Inr (Some \<lparr>key_day = d, key_hour = h, key_minute = mi, key_store = s,
                      key_line_number = n\<rparr>)))))
      else Inr None)"

definition table_item_of :: "groups \<Rightarrow> int \<Rightarrow> exn + ReceiptItem option" where
  "table_item_of g n =
     (if g ''item'' \<noteq> None
      then and_then (case g ''item'' of None \<Rightarrow> Inl TypeError | Some s \<Rightarrow> Inr s) (\<lambda>s.
           and_then (py_int (g ''price'')) (\<lambda>p.
           Inr (Some \<lparr>name = s, price = p, item_line_number = n\<rparr>)))
      else Inr None)"

definition parse_line ::
  "MonthlyReportLine \<Rightarrow> logger \<Rightarrow> exn + (TableRow option \<times> logger)" where
  "parse_line line lg =
     and_then (debug (printable (line_number line))) (\<lambda>_.
     case re_match row_re (line_text line) of
       None \<Rightarrow>
         and_then (fstring [Inr ''failed to parse'', Inr '' \"'', Inr (line_text line),
                            Inr ''\" at line '', str (line_number line)]) (\<lambda>msg.
         Inr (None, lg @ [(ERROR, msg)]))
     | Some g \<Rightarrow>
         and_then (table_key_of g (line_number line)) (\<lambda>k.
         and_then (table_item_of g (line_number line)) (\<lambda>i.
         and_then (debug (repr_ok_row
                     \<lparr>key = k, item = i, row_line_number = line_number line\<rparr>)) (\<lambda>_.
         Inr (Some \<lparr>key = k, item = i, row_line_number = line_number line\<rparr>, lg)))))"

section \<open>The section filter and the table scanner\<close>

text \<open>The heading \<open>## \<close> followed by the two characters of the expenses marker, in UTF-8.\<close>

definition section_heading :: string where
  "section_heading =
     [CHR 0x23, CHR 0x23, CHR 0x20, CHR 0xE5, CHR 0x87, CHR 0xBA, CHR 0xE8, CHR 0xB2, CHR 0xBB]"

text \<open>
  The generator \<open>_filter_payment_section\<close>, as the list of the lines it yields.
  \<open>re.match\<close> of a pattern of plain characters is a prefix test.
\<close>

fun filter_payment_section :: "bool \<Rightarrow> MonthlyReportLine list \<Rightarrow> MonthlyReportLine list" where
  "filter_payment_section in_section [] = []"
| "filter_payment_section in_section (line # lines) =
     (if \<not> in_section
      then (if prefix section_heading (line_text line)
            then filter_payment_section True lines
            else filter_payment_section in_section lines)
      else (if prefix ''#'' (line_text line)
            then []
            else line # filter_payment_section in_section lines))"

text \<open>The five header cells (day, time, store, item, price) in UTF-8, and the alignment row.\<close>

definition header :: string where
  "header =
     [CHR 0x7C, CHR 0xE6, CHR 0x97, CHR 0xA5,
      CHR 0x7C, CHR 0xE6, CHR 0x99, CHR 0x82, CHR 0xE5, CHR 0x88, CHR 0xBB,
      CHR 0x7C, CHR 0xE5, CHR 0xBA, CHR 0x97,
      CHR 0x7C, CHR 0xE5, CHR 0x95, CHR 0x86, CHR 0xE5, CHR 0x93, CHR 0x81,
      CHR 0x7C, CHR 0xE4, CHR 0xBE, CHR 0xA1, CHR 0xE6, CHR 0xA0, CHR 0xBC, CHR 0x7C]"

definition alignment :: string where
  "alignment = ''|--:|--:|:--|:--|--:|''"

datatype state = Header | Body | Outer

text \<open>The variables of the loop of \<open>_parse_payment_table\<close>, and the logger.\<close>

record scanner =
  state :: state
  tables :: "TableRow list list"
  table :: "TableRow list"
  scan_logger :: logger

definition scan_line :: "MonthlyReportLine \<Rightarrow> scanner \<Rightarrow> exn + scanner" where
  "scan_line line sc =
     and_then (debug (printable (line_number line))) (\<lambda>_.
      case state sc of
        Body \<Rightarrow>
          and_then (if line_text line \<noteq> [] then parse_line line (scan_logger sc)
                    else Inr (None, scan_logger sc)) (\<lambda>(row, lg).
          case row of
            Some r \<Rightarrow> Inr (sc\<lparr>table := table sc @ [r], scan_logger := lg\<rparr>)
          | None \<Rightarrow> Inr (sc\<lparr>state := Outer, tables := tables sc @ [table sc], table := [],
                            scan_logger := lg\<rparr>))
      | Header \<Rightarrow>
          if line_text line = alignment then Inr (sc\<lparr>state := Body\<rparr>)
          else Inr (sc\<lparr>scan_logger := scan_logger sc
                          @ [(ERROR, ''unexpected row \"'' @ line_text line @ ''\"'')]\<rparr>)
      | Outer \<Rightarrow>
          if line_text line = header then Inr (sc\<lparr>state := Header\<rparr>) else Inr sc)"

fun scan_lines :: "MonthlyReportLine list \<Rightarrow> scanner \<Rightarrow> exn + scanner" where
  "scan_lines [] sc = Inr sc"
| "scan_lines (line # lines) sc = and_then (scan_line line sc) (scan_lines lines)"

definition parse_payment_table ::
  "MonthlyReportLine list \<Rightarrow> logger \<Rightarrow> exn + (TableRow list list \<times> logger)" where
  "parse_payment_table lines lg =
     and_then (scan_lines (filter_payment_section False lines)
                 \<lparr>state = Outer, tables = [], table = [], scan_logger = lg\<rparr>) (\<lambda>sc.
     Inr (if table sc \<noteq> [] then tables sc @ [table sc] else tables sc, scan_logger sc))"

section \<open>The receipt assembler \<open>_PaymentTableParser\<close>\<close>

text \<open>
  The two position messages: the rows are rendered and indexed first, then the year,
  the month and the line number are formatted.
\<close>

definition first_position_message :: "Receipt \<Rightarrow> exn + string" where
  "first_position_message r =
     and_then (to_table_rows r) (\<lambda>rows.
     and_then (index_first rows) (\<lambda>row.
     fstring [Inr row, Inr '' at '', format_0 4 (year r), Inr ''/'', format_0 2 (month r),
              Inr ''.md:'', str (receipt_line_number r)]))"

definition last_position_message :: "Receipt \<Rightarrow> exn + string" where
  "last_position_message r =
     and_then (to_table_rows r) (\<lambda>rows.
     and_then (index_last rows) (\<lambda>row.
     fstring [Inr row, Inr '' at '', format_0 4 (year r), Inr ''/'', format_0 2 (month r),
              Inr ''.md:'', str (last_line_number r)]))"

record PaymentTableParser =
  self_year :: int
  self_month :: int
  self_logger :: logger
  self_receipts :: "Receipt list"
  is_last_empty :: bool
  is_before_key_empty :: bool
  table_key :: "TableKey option"
  table_items :: "ReceiptItem list"

definition init :: "int \<Rightarrow> int \<Rightarrow> logger \<Rightarrow> PaymentTableParser" where
  "init y m lg =
     \<lparr>self_year = y, self_month = m, self_logger = lg, self_receipts = [],
      is_last_empty = False, is_before_key_empty = False, table_key = None, table_items = []\<rparr>"

definition emit :: "level \<Rightarrow> string \<Rightarrow> PaymentTableParser \<Rightarrow> PaymentTableParser" where
  "emit lv msg self = self\<lparr>self_logger := self_logger self @ [(lv, msg)]\<rparr>"

text \<open>
  A message built from \<open>_first_position_message\<close> is evaluated before the logger is
  called, so its \<open>IndexError\<close> or \<open>ValueError\<close> leaves the function.
\<close>

definition emit_first ::
  "level \<Rightarrow> string \<Rightarrow> Receipt \<Rightarrow> PaymentTableParser \<Rightarrow> exn + PaymentTableParser" where
  "emit_first lv pre r self =
     and_then (first_position_message r) (\<lambda>msg. Inr (emit lv (pre @ msg) self))"

text \<open>The three validations of \<open>_push_receipt\<close>, in the order of the source.\<close>

definition validate_order ::
  "Receipt \<Rightarrow> datetime \<Rightarrow> PaymentTableParser \<Rightarrow> exn + PaymentTableParser" where
  "validate_order receipt t self =
     (if self_receipts self \<noteq> []
      then and_then (index_last (self_receipts self)) (\<lambda>prev.
           and_then (datetime prev) (\<lambda>tp.
           if tp > t then emit_first WARNING ''wrong order: '' receipt self else Inr self))
      else Inr self)"

definition validate_empty_row ::
  "Receipt \<Rightarrow> datetime \<Rightarrow> PaymentTableParser \<Rightarrow> exn + PaymentTableParser" where
  "validate_empty_row receipt t self =
     (if self_receipts self \<noteq> []
      then and_then (index_last (self_receipts self)) (\<lambda>prev.
           and_then (datetime prev) (\<lambda>tp.
           if dt_day tp < dt_day t
           then (if \<not> is_before_key_empty self
                 then emit_first WARNING ''need an empty row before: '' receipt self
                 else Inr self)
           else (if is_before_key_empty self
                 then emit_first WARNING ''need not an empty row before: '' receipt self
                 else Inr self)))
      else (if \<not> is_before_key_empty self
            then emit_first WARNING ''need an empty row before: '' receipt self
            else Inr self))"

definition candidate :: "PaymentTableParser \<Rightarrow> TableKey \<Rightarrow> Receipt" where
  "candidate self k =
     \<lparr>year = self_year self, month = self_month self, day = key_day k, hour = key_hour k,
      minute = key_minute k, store = key_store k, items = table_items self,
      receipt_line_number = key_line_number k\<rparr>"

definition push_receipt :: "PaymentTableParser \<Rightarrow> exn + PaymentTableParser" where
  "push_receipt self =
     (case table_key self of
        None \<Rightarrow> Inr self
      | Some k \<Rightarrow>
          (let receipt = candidate self k
           in and_then (debug (repr_ok_receipt receipt)) (\<lambda>_.
              let self = self\<lparr>table_key := None, table_items := []\<rparr>
              in case datetime receipt of
                   Inl e \<Rightarrow>
                     if e = ValueError
                     then emit_first ERROR ''invalid datetime: '' receipt self
                     else Inl e
                 | Inr t \<Rightarrow>
                     and_then (validate_order receipt t self) (\<lambda>self.
                     and_then (validate_empty_row receipt t self) (\<lambda>self.
                     Inr (self\<lparr>self_receipts := self_receipts self @ [receipt]\<rparr>))))))"

text \<open>The warning at the head of \<open>push\<close>, for an empty row after an empty row.\<close>

definition warn_consecutive ::
  "TableRow \<Rightarrow> PaymentTableParser \<Rightarrow> exn + PaymentTableParser" where
  "warn_consecutive row self =
     (if is_last_empty self
      then and_then (fstring [Inr ''consective empty row at '', format_0 4 (self_year self),
                              Inr ''/'', format_0 2 (self_month self), Inr ''.md'',
                              Inr '':'', str (row_line_number row)]) (\<lambda>msg.
           Inr (emit WARNING msg self))
      else Inr self)"

definition push :: "TableRow \<Rightarrow> PaymentTableParser \<Rightarrow> exn + PaymentTableParser" where
  "push row self =
     (if is_empty row
      then and_then (warn_consecutive row self) (\<lambda>self.
           and_then (push_receipt self) (\<lambda>self. Inr (self\<lparr>is_last_empty := True\<rparr>)))
      else and_then (case key row of
                       Some k \<Rightarrow>
                         and_then (push_receipt self) (\<lambda>self.
                         Inr (self\<lparr>is_before_key_empty := is_last_empty self,
                                   table_key := Some k\<rparr>))
                     | None \<Rightarrow> Inr self) (\<lambda>self.
           let self = (case item row of
                         Some i \<Rightarrow> self\<lparr>table_items := table_items self @ [i]\<rparr>
                       | None \<Rightarrow> self)
           in Inr (self\<lparr>is_last_empty := False\<rparr>)))"

definition result :: "PaymentTableParser \<Rightarrow> exn + (Receipt list \<times> logger)" where
  "result self =
     and_then (push_receipt self) (\<lambda>self.
     if \<not> is_last_empty self
     then and_then (index_last (self_receipts self)) (\<lambda>r.
          and_then (last_position_message r) (\<lambda>msg.
          Inr (self_receipts self,
               self_logger self @ [(WARNING, ''need an empty row after: '' @ msg)])))
     else Inr (self_receipts self, self_logger self))"

section \<open>\<open>parse_payment\<close>\<close>

fun push_rows :: "TableRow list \<Rightarrow> PaymentTableParser \<Rightarrow> exn + PaymentTableParser" where
  "push_rows [] self = Inr self"
| "push_rows (row # rows) self = and_then (push row self) (push_rows rows)"

definition parse_table ::
  "int \<Rightarrow> int \<Rightarrow> logger \<Rightarrow> TableRow list \<Rightarrow> exn + (Receipt list \<times> logger)" where
  "parse_table y m lg rows = and_then (push_rows rows (init y m lg)) result"

fun parse_tables ::
  "int \<Rightarrow> int \<Rightarrow> TableRow list list \<Rightarrow> Receipt list \<Rightarrow> logger
     \<Rightarrow> exn + (Receipt list \<times> logger)" where
  "parse_tables y m [] receipts lg = Inr (receipts, lg)"
| "parse_tables y m (t # ts) receipts lg =
     and_then (parse_table y m lg t) (\<lambda>(rs, lg').
     parse_tables y m ts (receipts @ rs) lg')"

text \<open>
  \<open>receipts.sort(key=...)\<close>: the key of every element is computed first, so a receipt
  with no datetime raises; the sort is stable.
\<close>

fun datetime_keys :: "Receipt list \<Rightarrow> exn + datetime list" where
  "datetime_keys [] = Inr []"
| "datetime_keys (r # rs) =
     and_then (datetime r) (\<lambda>t. and_then (datetime_keys rs) (\<lambda>ts. Inr (t # ts)))"

definition timestamp :: "Receipt \<Rightarrow> datetime" where
  "timestamp r = (year r, month r, day r, hour r, minute r)"

definition sort_by_datetime :: "Receipt list \<Rightarrow> exn + Receipt list" where
  "sort_by_datetime rs =
     and_then (datetime_keys rs) (\<lambda>keys. Inr (sort_key timestamp rs))"

definition parse_payment ::
  "int \<Rightarrow> int \<Rightarrow> MonthlyReportLine list \<Rightarrow> logger \<Rightarrow> exn + (Receipt list \<times> logger)" where
  "parse_payment y m lines lg =
     and_then (parse_payment_table lines lg) (\<lambda>(tbls, lg1).
     and_then (parse_tables y m tbls [] lg1) (\<lambda>(receipts, lg2).
     and_then (sort_by_datetime receipts) (\<lambda>sorted_receipts.
     Inr (sorted_receipts, lg2))))"

section \<open>Specification-level definitions\<close>

subsection \<open>The row grammar\<close>

text \<open>
  The words a regular expression matches, with the groups it sets: \<open>derives r w g g'\<close>
  says that \<open>r\<close> matches exactly the text \<open>w\<close> and turns the groups \<open>g\<close> into \<open>g'\<close>.
  It is the declarative reading of \<open>matches\<close>, used to state what \<open>re.match\<close> accepts.
\<close>

fun derives :: "regex \<Rightarrow> string \<Rightarrow> groups \<Rightarrow> groups \<Rightarrow> bool" where
  "derives (Cls p) w g g' = (length w = 1 \<and> list_all p w \<and> g' = g)"
| "derives (Plus p) w g g' = (w \<noteq> [] \<and> list_all p w \<and> g' = g)"
| "derives (Times n p) w g g' = (length w = n \<and> list_all p w \<and> g' = g)"
| "derives (Opt r) w g g' = (derives r w g g' \<or> (w = [] \<and> g' = g))"
| "derives (Seq r1 r2) w g g' =
     (\<exists>w1 w2 g1. w = w1 @ w2 \<and> derives r1 w1 g g1 \<and> derives r2 w2 g1 g')"
| "derives (Alt r1 r2) w g g' = (derives r1 w g g' \<or> derives r2 w g g')"
| "derives (Group n r) w g g' = (\<exists>g1. derives r w g g1 \<and> g' = g1(n \<mapsto> w))"

text \<open>
  The grammar of a row in words: a key group is the cells
  \<open>|day|hh:mm|store\<close> or three bars, an item group is the cells \<open>|name|price|\<close> or
  three bars, and a row text is one key group followed by one item group.
\<close>

definition signed_digits :: "string \<Rightarrow> bool" where
  "signed_digits p =
     (\<exists>ds. ds \<noteq> [] \<and> list_all is_digit ds \<and> (p = ds \<or> p = CHR ''-'' # ds))"

definition key_cells :: "string \<Rightarrow> string \<Rightarrow> string \<Rightarrow> string \<Rightarrow> string" where
  "key_cells d h mi s = ''|'' @ d @ ''|'' @ h @ '':'' @ mi @ ''|'' @ s"

definition item_cells :: "string \<Rightarrow> string \<Rightarrow> string" where
  "item_cells n p = ''|'' @ n @ ''|'' @ p @ ''|''"

definition key_fields :: "string \<Rightarrow> string \<Rightarrow> string \<Rightarrow> string \<Rightarrow> bool" where
  "key_fields d h mi s =
     (d \<noteq> [] \<and> list_all is_digit d \<and> length h = 2 \<and> list_all is_digit h
      \<and> length mi = 2 \<and> list_all is_digit mi \<and> s \<noteq> [] \<and> list_all not_bar s)"

definition item_fields :: "string \<Rightarrow> string \<Rightarrow> bool" where
  "item_fields n p = (n \<noteq> [] \<and> list_all not_bar n \<and> signed_digits p)"

definition key_group :: "string \<Rightarrow> bool" where
  "key_group k =
     ((\<exists>d h mi s. k = key_cells d h mi s \<and> key_fields d h mi s) \<or> k = ''|||'')"

definition item_group :: "string \<Rightarrow> bool" where
  "item_group i = ((\<exists>n p. i = item_cells n p \<and> item_fields n p) \<or> i = ''|||'')"

definition row_text :: "string \<Rightarrow> bool" where
  "row_text w = (\<exists>k i. w = k @ i \<and> key_group k \<and> item_group i)"

text \<open>
  A row text is readable when \<open>int()\<close> accepts its cells: the day and the price have at
  most \<open>int_max_str_digits\<close> digits (the hour and the minute have two).
\<close>

definition digit_count :: "string \<Rightarrow> nat" where
  "digit_count p = length (if p \<noteq> [] \<and> hd p = CHR ''-'' then tl p else p)"

definition readable_key_group :: "string \<Rightarrow> bool" where
  "readable_key_group k =
     ((\<exists>d h mi s. k = key_cells d h mi s \<and> key_fields d h mi s
         \<and> int (length d) \<le> int_max_str_digits)
      \<or> k = ''|||'')"

definition readable_item_group :: "string \<Rightarrow> bool" where
  "readable_item_group i =
     ((\<exists>n p. i = item_cells n p \<and> item_fields n p \<and> int (digit_count p) \<le> int_max_str_digits)
      \<or> i = ''|||'')"

definition readable_row_text :: "string \<Rightarrow> bool" where
  "readable_row_text w = (\<exists>k i. w = k @ i \<and> readable_key_group k \<and> readable_item_group i)"

text \<open>
  What the cells say: the groups that a match sets, and the key and the item that a key
  group and an item group on line \<open>n\<close> stand for.
\<close>

definition key_groups :: "groups \<Rightarrow> string \<Rightarrow> string \<Rightarrow> string \<Rightarrow> string \<Rightarrow> groups" where
  "key_groups g d h mi s = g(''day'' \<mapsto> d, ''hour'' \<mapsto> h, ''minute'' \<mapsto> mi, ''store'' \<mapsto> s)"

definition item_groups :: "groups \<Rightarrow> string \<Rightarrow> string \<Rightarrow> groups" where
  "item_groups g n p = g(''item'' \<mapsto> n, ''price'' \<mapsto> p)"

definition key_reading :: "int \<Rightarrow> string \<Rightarrow> TableKey option \<Rightarrow> bool" where
  "key_reading n k kk =
     ((\<exists>d h mi s. k = key_cells d h mi s \<and> key_fields d h mi s
         \<and> int (length d) \<le> int_max_str_digits
         \<and> kk = Some \<lparr>key_day = int_of_digits d, key_hour = int_of_digits h,
                      key_minute = int_of_digits mi, key_store = s,
                      key_line_number = n\<rparr>)
      \<or> (k = ''|||'' \<and> kk = None))"

definition item_reading :: "int \<Rightarrow> string \<Rightarrow> ReceiptItem option \<Rightarrow> bool" where
  "item_reading n i ii =
     ((\<exists>nm p v. i = item_cells nm p \<and> item_fields nm p \<and> py_int (Some p) = Inr v
         \<and> ii = Some \<lparr>name = nm, price = v, item_line_number = n\<rparr>)
      \<or> (i = ''|||'' \<and> ii = None))"

subsection \<open>The receipts of a table\<close>

text \<open>
  The item cells from a row onwards, up to the next key row or empty row, and the
  receipts a table stands for: one per key row, with the items of its own row and of the
  rows that follow it.
\<close>

fun items_until_next :: "TableRow list \<Rightarrow> ReceiptItem list" where
  "items_until_next [] = []"
| "items_until_next (row # rows) =
     (if key row \<noteq> None \<or> is_empty row then []
      else (case item row of Some i \<Rightarrow> [i] | None \<Rightarrow> []) @ items_until_next rows)"

fun expected_receipts :: "int \<Rightarrow> int \<Rightarrow> TableRow list \<Rightarrow> Receipt list" where
  "expected_receipts y m [] = []"
| "expected_receipts y m (row # rows) =
     (case key row of
        None \<Rightarrow> expected_receipts y m rows
      | Some k \<Rightarrow>
          \<lparr>year = y, month = m, day = key_day k, hour = key_hour k, minute = key_minute k,
           store = key_store k,
           items = (case item row of Some i \<Rightarrow> [i] | None \<Rightarrow> []) @ items_until_next rows,
           receipt_line_number = key_line_number k\<rparr> # expected_receipts y m rows)"

text \<open>
  No item row outside a receipt: every row that carries an item and no key comes after a
  key row, with no empty row in between. The flag says whether a receipt is open.
\<close>

fun no_orphan_items :: "bool \<Rightarrow> TableRow list \<Rightarrow> bool" where
  "no_orphan_items opened [] = True"
| "no_orphan_items opened (row # rows) =
     (if is_empty row then no_orphan_items False rows
      else if key row \<noteq> None then no_orphan_items True rows
      else opened \<and> no_orphan_items opened rows)"

definition valid_keys :: "int \<Rightarrow> int \<Rightarrow> TableRow list \<Rightarrow> bool" where
  "valid_keys y m rows =
     list_all (\<lambda>row. case key row of
                        None \<Rightarrow> True
                      | Some k \<Rightarrow> valid_datetime y m (key_day k) (key_hour k) (key_minute k)) rows"

definition key_rows_have_items :: "TableRow list \<Rightarrow> bool" where
  "key_rows_have_items rows = list_all (\<lambda>row. key row \<noteq> None \<longrightarrow> item row \<noteq> None) rows"

subsection \<open>Invariants of the assembler\<close>

text \<open>A receipt of the year and month of the file, with a datetime.\<close>

definition receipt_ok :: "int \<Rightarrow> int \<Rightarrow> Receipt \<Rightarrow> bool" where
  "receipt_ok y m r = (year r = y \<and> month r = m \<and> datetime r = Inr (timestamp r))"

text \<open>
  The pending state is sound when an open key has a calendar date, and when no items
  are held while no key is open. \<open>pending_receipts p rows\<close> is the receipt that the open
  key of \<open>p\<close> becomes once the rows to come have been read.
\<close>

definition pending_valid :: "PaymentTableParser \<Rightarrow> bool" where
  "pending_valid p =
     (case table_key p of
        None \<Rightarrow> table_items p = []
      | Some k \<Rightarrow> valid_datetime (self_year p) (self_month p) (key_day k) (key_hour k) (key_minute k))"

definition pending_receipts :: "PaymentTableParser \<Rightarrow> TableRow list \<Rightarrow> Receipt list" where
  "pending_receipts p rows =
     (case table_key p of
        None \<Rightarrow> []
      | Some k \<Rightarrow> [(candidate p k)\<lparr>items := table_items p @ items_until_next rows\<rparr>])"

text \<open>
  The state in which no message of a flush can fail: the pending state is sound, every
  receipt has an item and a datetime, an open key has at least one item, and every
  integer held is printable.
\<close>

definition with_items :: "PaymentTableParser \<Rightarrow> bool" where
  "with_items p =
     (pending_valid p
      \<and> list_all (\<lambda>r. items r \<noteq> [] \<and> datetime r = Inr (timestamp r) \<and> repr_ok_receipt r)
           (self_receipts p)
      \<and> (table_key p \<noteq> None \<longrightarrow> table_items p \<noteq> [])
      \<and> printable (self_year p) \<and> printable (self_month p)
      \<and> list_all repr_ok_item (table_items p)
      \<and> (case table_key p of None \<Rightarrow> True | Some k \<Rightarrow> repr_ok_key k))"

subsection \<open>The rows of a receipt\<close>

text \<open>
  The two shapes of row that \<open>to_table_rows\<close> writes, in terms of the cells, the rows of
  a receipt, and the condition under which \<open>to_table_rows\<close> returns them: the integers
  it formats are printable.
\<close>

definition item_row :: "ReceiptItem \<Rightarrow> string" where
  "item_row it = ''|||'' @ item_cells (name it) (str_text (price it))"

definition key_row :: "Receipt \<Rightarrow> ReceiptItem \<Rightarrow> string" where
  "key_row r it =
     key_cells (str_text (day r)) (format_0_text 2 (hour r)) (format_0_text 2 (minute r))
       (store r)
     @ item_cells (name it) (str_text (price it))"

definition rows_text :: "Receipt \<Rightarrow> string list" where
  "rows_text r = (case items r of [] \<Rightarrow> [] | it # its \<Rightarrow> key_row r it # map item_row its)"

definition rows_printable :: "Receipt \<Rightarrow> bool" where
  "rows_printable r =
     ((items r \<noteq> [] \<longrightarrow> printable (day r) \<and> printable (hour r) \<and> printable (minute r))
      \<and> list_all (\<lambda>it. printable (price it)) (items r))"

section \<open>Example inputs\<close>

text \<open>A file with one table of two receipts, the later day first.\<close>

definition example_lines :: "MonthlyReportLine list" where
  "example_lines =
     [\<lparr>line_text = section_heading, line_number = 1\<rparr>,
      \<lparr>line_text = header, line_number = 2\<rparr>,
      \<lparr>line_text = alignment, line_number = 3\<rparr>,
      \<lparr>line_text = ''||||||'', line_number = 4\<rparr>,
      \<lparr>line_text = ''|16|09:30|Example Store|Widget|500|'', line_number = 5\<rparr>,
      \<lparr>line_text = ''||||Gadget|300|'', line_number = 6\<rparr>,
      \<lparr>line_text = ''||||||'', line_number = 7\<rparr>,
      \<lparr>line_text = ''|15|18:05|Other|Thing|-20|'', line_number = 8\<rparr>,
      \<lparr>line_text = ''||||||'', line_number = 9\<rparr>]"

definition receipt_16 :: Receipt where
  "receipt_16 =
     \<lparr>year = 2024, month = 4, day = 16, hour = 9, minute = 30, store = ''Example Store'',
      items = [\<lparr>name = ''Widget'', price = 500, item_line_number = 5\<rparr>,
               \<lparr>name = ''Gadget'', price = 300, item_line_number = 6\<rparr>],
      receipt_line_number = 5\<rparr>"

definition receipt_15 :: Receipt where
  "receipt_15 =
     \<lparr>year = 2024, month = 4, day = 15, hour = 18, minute = 5, store = ''Other'',
      items = [\<lparr>name = ''Thing'', price = - 20, item_line_number = 8\<rparr>],
      receipt_line_number = 8\<rparr>"

definition example_log :: logger where
  "example_log =
     [(WARNING, ''wrong order: |15|18:05|Other|Thing|-20| at 2024/04.md:8''),
      (WARNING, ''need not an empty row before: |15|18:05|Other|Thing|-20| at 2024/04.md:8'')]"

text \<open>The rows of a table: an empty row, a receipt of two items, an empty row.\<close>

definition example_rows :: "TableRow list" where
  "example_rows =
     [\<lparr>key = None, item = None, row_line_number = 4\<rparr>,
      \<lparr>key = Some \<lparr>key_day = 15, key_hour = 9, key_minute = 30, key_store = ''Store'',
                   key_line_number = 5\<rparr>,
       item = Some \<lparr>name = ''Widget'', price = 500, item_line_number = 5\<rparr>,
       row_line_number = 5\<rparr>,
      \<lparr>key = None, item = Some \<lparr>name = ''Gadget'', price = 300, item_line_number = 6\<rparr>,
       row_line_number = 6\<rparr>,
      \<lparr>key = None, item = None, row_line_number = 7\<rparr>]"

text \<open>The same with an item row in front, before any key row.\<close>

definition orphan_rows :: "TableRow list" where
  "orphan_rows =
     [\<lparr>key = None, item = Some \<lparr>name = ''Orphan'', price = 1, item_line_number = 2\<rparr>,
       row_line_number = 2\<rparr>,
      \<lparr>key = None, item = None, row_line_number = 3\<rparr>]
     @ tl example_rows"

text \<open>
  A parser that holds the receipt of day 20 and an open key for the given day, read
  with no empty row before it.
\<close>

definition after_day_20 :: "int \<Rightarrow> PaymentTableParser" where
  "after_day_20 d =
     \<lparr>self_year = 2024, self_month = 4, self_logger = [],
      self_receipts = [\<lparr>year = 2024, month = 4, day = 20, hour = 9, minute = 30,
                        store = ''Store'',
                        items = [\<lparr>name = ''Widget'', price = 500, item_line_number = 4\<rparr>],
                        receipt_line_number = 4\<rparr>],
      is_last_empty = False, is_before_key_empty = False,
      table_key = Some \<lparr>key_day = d, key_hour = 9, key_minute = 30, key_store = ''Store'',
                        key_line_number = 5\<rparr>,
      table_items = [\<lparr>name = ''Gadget'', price = 300, item_line_number = 5\<rparr>]\<rparr>"


section \<open>Sequencing and the flush\<close>

lemma and_then_simps [simp]:
  "and_then (Inr x) f = f x" "and_then (Inl e) f = Inl e"
  by (simp_all add: and_then_def)

lemma and_then_eq_Inr: "and_then m f = Inr y \<longleftrightarrow> (\<exists>x. m = Inr x \<and> f x = Inr y)"
  by (cases m) simp_all

lemma emit_first_Inr:
  "emit_first lv pre r p = Inr p' \<Longrightarrow> \<exists>msg. first_position_message r = Inr msg \<and> p' = emit lv (pre @ msg) p"
  by (auto simp: emit_first_def and_then_eq_Inr)

lemma logger_only_refl: "\<exists>lg. p = p\<lparr>self_logger := lg\<rparr>"
  by (rule exI[of _ "self_logger p"]) simp

lemma emit_first_logger_only:
  "emit_first lv pre r p = Inr p' \<Longrightarrow> \<exists>lg. p' = p\<lparr>self_logger := lg\<rparr>"
  by (auto simp: emit_def dest!: emit_first_Inr)

lemma validate_order_logger_only:
  "validate_order r t p = Inr p' \<Longrightarrow> \<exists>lg. p' = p\<lparr>self_logger := lg\<rparr>"
  by (auto simp: validate_order_def and_then_eq_Inr split: if_splits
           intro: logger_only_refl dest: emit_first_logger_only)

lemma validate_empty_row_logger_only:
  "validate_empty_row r t p = Inr p' \<Longrightarrow> \<exists>lg. p' = p\<lparr>self_logger := lg\<rparr>"
  by (auto simp: validate_empty_row_def and_then_eq_Inr split: if_splits
           intro: logger_only_refl dest: emit_first_logger_only)

lemma valid_datetime_c_int:
  assumes "valid_datetime y m d h mi"
  shows "c_int y \<and> c_int m \<and> c_int d \<and> c_int h \<and> c_int mi"
proof -
  have "days_in_month y m \<le> 31" by (simp add: days_in_month_def)
  with assms show ?thesis by (simp add: valid_datetime_def c_int_def)
qed

lemma datetime_Inr:
  "datetime r = Inr t \<longleftrightarrow>
     valid_datetime (year r) (month r) (day r) (hour r) (minute r) \<and> t = timestamp r"
  using valid_datetime_c_int[of "year r" "month r" "day r" "hour r" "minute r"]
  by (auto simp: datetime_def timestamp_def)

lemma debug_Inr [simp]: "debug ok = Inr u \<longleftrightarrow> ok"
  by (simp add: debug_def)

lemma debug_True [simp]: "debug True = Inr ()"
  by (simp add: debug_def)

lemma debug_False [simp]: "debug False = Inl ValueError"
  by (simp add: debug_def)

lemma fstring_Inr_Cons [simp]:
  "fstring (Inr a # ps) = and_then (fstring ps) (\<lambda>t. Inr (a @ t))"
  by simp

lemma fstring_Inl_Cons [simp]: "fstring (Inl e # ps) = Inl e"
  by simp

lemma str_printable [simp]: "printable i \<Longrightarrow> str i = Inr (str_text i)"
  by (simp add: str_def)

lemma format_0_printable [simp]: "printable i \<Longrightarrow> format_0 w i = Inr (format_0_text w i)"
  by (simp add: format_0_def)

lemma str_Inr: "str i = Inr s \<longleftrightarrow> printable i \<and> s = str_text i"
  by (auto simp: str_def)

lemma format_0_Inr: "format_0 w i = Inr s \<longleftrightarrow> printable i \<and> s = format_0_text w i"
  by (auto simp: format_0_def)

text \<open>What a flush that returns has done to the parser.\<close>

lemma push_receipt_None: "table_key p = None \<Longrightarrow> push_receipt p = Inr p"
  by (simp add: push_receipt_def)

lemma push_receipt_Some:
  assumes "table_key p = Some k" and "push_receipt p = Inr p'"
  shows "\<exists>lg. p' = p\<lparr>table_key := None, table_items := [], self_logger := lg,
               self_receipts := (if datetime (candidate p k) = Inr (timestamp (candidate p k))
                                 then self_receipts p @ [candidate p k] else self_receipts p)\<rparr>"
proof (cases "datetime (candidate p k)")
  case (Inl e)
  from assms Inl have "emit_first ERROR ''invalid datetime: '' (candidate p k)
      (p\<lparr>table_key := None, table_items := []\<rparr>) = Inr p'"
    by (auto simp: push_receipt_def Let_def and_then_eq_Inr split: if_splits)
  from emit_first_logger_only[OF this] obtain lg where
    "p' = p\<lparr>table_key := None, table_items := [], self_logger := lg\<rparr>" by auto
  with Inl show ?thesis by (intro exI[of _ lg]) simp
next
  case (Inr t)
  then have t: "t = timestamp (candidate p k)" by (simp add: datetime_Inr)
  from assms Inr obtain p1 p2 where
    1: "validate_order (candidate p k) t (p\<lparr>table_key := None, table_items := []\<rparr>) = Inr p1"
    and 2: "validate_empty_row (candidate p k) t p1 = Inr p2"
    and 3: "p' = p2\<lparr>self_receipts := self_receipts p2 @ [candidate p k]\<rparr>"
    by (auto simp: push_receipt_def Let_def and_then_eq_Inr)
  from validate_order_logger_only[OF 1] obtain lg1 where
    p1: "p1 = p\<lparr>table_key := None, table_items := [], self_logger := lg1\<rparr>" by auto
  from validate_empty_row_logger_only[OF 2] obtain lg2 where
    p2: "p2 = p1\<lparr>self_logger := lg2\<rparr>" by auto
  from 3 p1 p2 Inr t show ?thesis by (intro exI[of _ lg2]) simp
qed

lemma warn_consecutive_logger_only:
  "warn_consecutive row p = Inr q \<Longrightarrow> \<exists>lg. q = p\<lparr>self_logger := lg\<rparr>"
  by (auto simp: warn_consecutive_def and_then_eq_Inr emit_def split: if_splits
           intro: logger_only_refl)

section \<open>The receipts of a file: year, month and datetime\<close>

lemma push_receipt_fields:
  assumes "push_receipt p = Inr p'"
  shows "self_year p' = self_year p \<and> self_month p' = self_month p
       \<and> is_last_empty p' = is_last_empty p \<and> is_before_key_empty p' = is_before_key_empty p
       \<and> table_key p' = None"
proof (cases "table_key p")
  case None
  with assms show ?thesis by (simp add: push_receipt_None)
next
  case (Some k)
  from push_receipt_Some[OF Some assms] show ?thesis by auto
qed

lemma push_receipt_receipts:
  assumes "push_receipt p = Inr p'"
  shows "self_receipts p' = self_receipts p
       \<or> (\<exists>k. table_key p = Some k \<and> datetime (candidate p k) = Inr (timestamp (candidate p k))
              \<and> self_receipts p' = self_receipts p @ [candidate p k])"
proof (cases "table_key p")
  case None
  with assms show ?thesis by (simp add: push_receipt_None)
next
  case (Some k)
  from push_receipt_Some[OF Some assms] Some show ?thesis by (auto split: if_splits)
qed

lemma candidate_ok:
  "datetime (candidate p k) = Inr (timestamp (candidate p k))
     \<Longrightarrow> receipt_ok (self_year p) (self_month p) (candidate p k)"
  by (simp add: receipt_ok_def candidate_def)

lemma push_receipt_ok:
  assumes "push_receipt p = Inr p'" and "list_all (receipt_ok (self_year p) (self_month p)) (self_receipts p)"
  shows "list_all (receipt_ok (self_year p') (self_month p')) (self_receipts p')"
  using push_receipt_fields[OF assms(1)] push_receipt_receipts[OF assms(1)] assms(2)
  by (auto simp: candidate_ok)

lemma push_ok:
  assumes "push row p = Inr p'" and "list_all (receipt_ok (self_year p) (self_month p)) (self_receipts p)"
  shows "self_year p' = self_year p \<and> self_month p' = self_month p
       \<and> list_all (receipt_ok (self_year p) (self_month p)) (self_receipts p')"
proof (cases "is_empty row")
  case True
  with assms(1) obtain q q' where q: "warn_consecutive row p = Inr q"
    and q': "push_receipt q = Inr q'" and p': "p' = q'\<lparr>is_last_empty := True\<rparr>"
    by (auto simp: push_def and_then_eq_Inr)
  from warn_consecutive_logger_only[OF q] obtain lg where lg: "q = p\<lparr>self_logger := lg\<rparr>"
    by blast
  have "list_all (receipt_ok (self_year q) (self_month q)) (self_receipts q)"
    using assms(2) lg by simp
  from push_receipt_ok[OF q' this] push_receipt_fields[OF q'] p' lg
  show ?thesis by simp
next
  case False
  show ?thesis
  proof (cases "key row")
    case None
    with assms False show ?thesis
      by (auto simp: push_def Let_def split: option.splits)
  next
    case (Some k)
    with assms(1) False obtain q' where q': "push_receipt p = Inr q'"
      and p': "self_year p' = self_year q' \<and> self_month p' = self_month q' \<and> self_receipts p' = self_receipts q'"
      by (auto simp: push_def Let_def and_then_eq_Inr split: option.splits)
    from push_receipt_ok[OF q' assms(2)] push_receipt_fields[OF q'] p'
    show ?thesis by simp
  qed
qed

lemma push_rows_ok:
  "push_rows rows p = Inr p' \<Longrightarrow> list_all (receipt_ok (self_year p) (self_month p)) (self_receipts p)
     \<Longrightarrow> self_year p' = self_year p \<and> self_month p' = self_month p
       \<and> list_all (receipt_ok (self_year p) (self_month p)) (self_receipts p')"
proof (induction rows arbitrary: p)
  case Nil
  then show ?case by simp
next
  case (Cons row rows)
  from Cons.prems(1) obtain q where q: "push row p = Inr q" and r: "push_rows rows q = Inr p'"
    by (auto simp: and_then_eq_Inr)
  from push_ok[OF q Cons.prems(2)] Cons.IH[OF r] show ?case by simp
qed

lemma result_receipts:
  "result p = Inr (rs, lg) \<Longrightarrow> \<exists>p'. push_receipt p = Inr p' \<and> rs = self_receipts p'"
  by (auto simp: result_def and_then_eq_Inr split: if_splits)

lemma parse_table_ok:
  assumes "parse_table y m lg rows = Inr (rs, lg')"
  shows "list_all (receipt_ok y m) rs"
proof -
  from assms obtain p where p: "push_rows rows (init y m lg) = Inr p" and r: "result p = Inr (rs, lg')"
    by (auto simp: parse_table_def and_then_eq_Inr)
  from push_rows_ok[OF p] have 1: "self_year p = y \<and> self_month p = m \<and> list_all (receipt_ok y m) (self_receipts p)"
    by (simp add: init_def)
  from result_receipts[OF r] obtain p' where p': "push_receipt p = Inr p'" and rs: "rs = self_receipts p'"
    by auto
  from push_receipt_ok[OF p'] push_receipt_fields[OF p'] 1 rs show ?thesis by simp
qed

lemma parse_tables_ok:
  "parse_tables y m ts acc lg = Inr (rs, lg') \<Longrightarrow> list_all (receipt_ok y m) acc
     \<Longrightarrow> list_all (receipt_ok y m) rs"
proof (induction ts arbitrary: acc lg)
  case Nil
  then show ?case by simp
next
  case (Cons t ts)
  from Cons.prems(1) obtain rs1 lg1 where 1: "parse_table y m lg t = Inr (rs1, lg1)"
    and 2: "parse_tables y m ts (acc @ rs1) lg1 = Inr (rs, lg')"
    by (auto simp: and_then_eq_Inr)
  from parse_table_ok[OF 1] Cons.prems(2) have "list_all (receipt_ok y m) (acc @ rs1)" by simp
  from Cons.IH[OF 2 this] show ?case .
qed

lemma parse_tables_concat:
  "parse_tables y m ts acc lg = Inr (rs, lg')
     \<Longrightarrow> \<exists>rss. list_all2 (\<lambda>t rs1. \<exists>lg2 lg3. parse_table y m lg2 t = Inr (rs1, lg3)) ts rss
             \<and> rs = acc @ concat rss"
proof (induction ts arbitrary: acc lg)
  case Nil
  then show ?case by simp
next
  case (Cons t ts)
  from Cons.prems(1) obtain rs1 lg1 where 1: "parse_table y m lg t = Inr (rs1, lg1)"
    and 2: "parse_tables y m ts (acc @ rs1) lg1 = Inr (rs, lg')"
    by (auto simp: and_then_eq_Inr)
  from Cons.IH[OF 2] obtain rss where
    rss: "list_all2 (\<lambda>t rs1. \<exists>lg2 lg3. parse_table y m lg2 t = Inr (rs1, lg3)) ts rss"
    and rs: "rs = (acc @ rs1) @ concat rss" by blast
  from 1 rss have "list_all2 (\<lambda>t rs1. \<exists>lg2 lg3. parse_table y m lg2 t = Inr (rs1, lg3)) (t # ts) (rs1 # rss)"
    by auto
  moreover from rs have "rs = acc @ concat (rs1 # rss)" by simp
  ultimately show ?case by blast
qed

lemma sort_by_datetime_Inr:
  "sort_by_datetime rs = Inr rs' \<Longrightarrow> rs' = sort_key timestamp rs"
  by (auto simp: sort_by_datetime_def and_then_eq_Inr)

lemma parse_payment_Inr:
  assumes "parse_payment y m lines lg = Inr (rs, lg')"
  shows "\<exists>tbls lg1 assembled.
           parse_payment_table lines lg = Inr (tbls, lg1)
         \<and> parse_tables y m tbls [] lg1 = Inr (assembled, lg')
         \<and> rs = sort_key timestamp assembled"
  using assms
  by (auto simp: parse_payment_def and_then_eq_Inr dest: sort_by_datetime_Inr)

text \<open>
  C9. Every receipt that \<open>parse_payment year month lines\<close> returns has the year and the
  month of the call, and its \<open>datetime\<close> property evaluates (it does not raise).
\<close>

theorem parse_payment_receipts_valid:
  assumes "parse_payment y m lines lg = Inr (rs, lg')" and "r \<in> set rs"
  shows "year r = y \<and> month r = m \<and> datetime r = Inr (timestamp r)"
proof -
  from parse_payment_Inr[OF assms(1)] obtain tbls lg1 assembled where
    2: "parse_tables y m tbls [] lg1 = Inr (assembled, lg')" and 3: "rs = sort_key timestamp assembled"
    by auto
  from parse_tables_ok[OF 2] have "list_all (receipt_ok y m) assembled" by simp
  with 3 assms(2) show ?thesis by (auto simp: list_all_iff receipt_ok_def)
qed

text \<open>The example file: both receipts are of April 2024 and have a datetime.\<close>

theorem parse_payment_receipts_valid_witness:
  "parse_payment 2024 4 example_lines [] = Inr ([receipt_15, receipt_16], example_log)
   \<and> receipt_16 \<in> set [receipt_15, receipt_16]
   \<and> year receipt_16 = 2024 \<and> month receipt_16 = 4
   \<and> datetime receipt_16 = Inr (timestamp receipt_16)"
proof -
  have h: "parse_payment 2024 4 example_lines [] = Inr ([receipt_15, receipt_16], example_log)"
    by code_simp
  have m: "receipt_16 \<in> set [receipt_15, receipt_16]" by simp
  from parse_payment_receipts_valid[OF h m] h m show ?thesis by simp
qed

section \<open>The order of the result\<close>

text \<open>
  C7. The list that \<open>parse_payment\<close> returns is non-decreasing by timestamp (year,
  month, day, hour, minute), and the receipts of one timestamp keep the order in which
  the tables gave them: the result is the stable sort of the concatenation of the tables'
  receipts.
\<close>

theorem parse_payment_sorted_stable:
  assumes "parse_payment y m lines lg = Inr (rs, lg')"
  shows "sorted (map timestamp rs)
       \<and> (\<exists>tbls lg1 assembled.
             parse_payment_table lines lg = Inr (tbls, lg1)
           \<and> parse_tables y m tbls [] lg1 = Inr (assembled, lg')
           \<and> (\<exists>rss. list_all2 (\<lambda>t rs1. \<exists>lg2 lg3. parse_table y m lg2 t = Inr (rs1, lg3)) tbls rss
                    \<and> assembled = concat rss)
           \<and> (\<forall>t. filter (\<lambda>r. timestamp r = t) rs = filter (\<lambda>r. timestamp r = t) assembled))"
proof -
  from parse_payment_Inr[OF assms(1)] obtain tbls lg1 assembled where
    1: "parse_payment_table lines lg = Inr (tbls, lg1)" and
    2: "parse_tables y m tbls [] lg1 = Inr (assembled, lg')" and 3: "rs = sort_key timestamp assembled"
    by auto
  have "sorted (map timestamp rs)" using 3 by simp
  moreover have "\<exists>rss. list_all2 (\<lambda>t rs1. \<exists>lg2 lg3. parse_table y m lg2 t = Inr (rs1, lg3)) tbls rss
                    \<and> assembled = concat rss"
    using parse_tables_concat[OF 2] by simp
  moreover have "\<forall>t. filter (\<lambda>r. timestamp r = t) rs = filter (\<lambda>r. timestamp r = t) assembled"
    using 3 by (simp add: sort_key_stable)
  ultimately show ?thesis using 1 2 by blast
qed

text \<open>The example file: the receipt of day 15, read second, comes first.\<close>

theorem parse_payment_sorted_stable_witness:
  "parse_payment 2024 4 example_lines [] = Inr ([receipt_15, receipt_16], example_log)
   \<and> sorted (map timestamp [receipt_15, receipt_16])
   \<and> (\<exists>tbls lg1 assembled.
         parse_payment_table example_lines [] = Inr (tbls, lg1)
       \<and> parse_tables 2024 4 tbls [] lg1 = Inr (assembled, example_log)
       \<and> (\<exists>rss. list_all2 (\<lambda>t rs1. \<exists>lg2 lg3. parse_table 2024 4 lg2 t = Inr (rs1, lg3)) tbls rss
                \<and> assembled = concat rss)
       \<and> (\<forall>t. filter (\<lambda>r. timestamp r = t) [receipt_15, receipt_16]
              = filter (\<lambda>r. timestamp r = t) assembled))"
proof -
  have h: "parse_payment 2024 4 example_lines [] = Inr ([receipt_15, receipt_16], example_log)"
    by code_simp
  from parse_payment_sorted_stable[OF h] h show ?thesis by simp
qed

section \<open>A header row that no alignment row follows\<close>





section \<open>The warnings about the empty row before a receipt\<close>

lemma to_table_rows_loop_length:
  "to_table_rows_loop r rows its = Inr out \<Longrightarrow> length out = length rows + length its"
proof (induction its arbitrary: rows)
  case Nil
  then show ?case by simp
next
  case (Cons it its)
  from Cons.prems obtain row where "to_table_rows_loop r (rows @ [row]) its = Inr out"
    by (auto simp: and_then_eq_Inr)
  from Cons.IH[OF this] show ?case by simp
qed

lemma length_to_table_rows: "to_table_rows r = Inr rows \<Longrightarrow> length rows = length (items r)"
  using to_table_rows_loop_length[of r "[]" "items r" rows] by (simp add: to_table_rows_def)

lemma to_table_rows_loop_later:
  "rows \<noteq> [] \<Longrightarrow> list_all (\<lambda>it. printable (price it)) its
     \<Longrightarrow> to_table_rows_loop r rows its = Inr (rows @ map item_row its)"
  by (induction its arbitrary: rows) (simp_all add: item_row_def item_cells_def)

lemma to_table_rows_printable:
  assumes "rows_printable r"
  shows "to_table_rows r = Inr (rows_text r)"
proof (cases "items r")
  case Nil
  then show ?thesis by (simp add: to_table_rows_def rows_text_def)
next
  case (Cons it its)
  with assms have p: "printable (day r)" "printable (hour r)" "printable (minute r)"
    "printable (price it)" "list_all (\<lambda>it. printable (price it)) its"
    by (simp_all add: rows_printable_def)
  have "to_table_rows_loop r [key_row r it] its = Inr ([key_row r it] @ map item_row its)"
    using p(5) by (intro to_table_rows_loop_later) simp_all
  with Cons p show ?thesis
    by (simp add: to_table_rows_def rows_text_def key_row_def key_cells_def item_cells_def)
qed

text \<open>\<open>to_table_rows\<close> in full: the rows, or \<open>ValueError\<close> from an integer it cannot format.\<close>

lemma to_table_rows_loop_later_eq:
  "rows \<noteq> [] \<Longrightarrow>
   to_table_rows_loop r rows its
     = (if list_all (\<lambda>it. printable (price it)) its then Inr (rows @ map item_row its)
        else Inl ValueError)"
proof (induction its arbitrary: rows)
  case Nil
  then show ?case by simp
next
  case (Cons it its)
  show ?case
  proof (cases "printable (price it)")
    case True
    have "rows @ [''||||'' @ name it @ ''|'' @ str_text (price it) @ ''|''] \<noteq> []" by simp
    from Cons.IH[OF this] True Cons.prems show ?thesis
      by (simp add: item_row_def item_cells_def)
  next
    case False
    with Cons.prems show ?thesis by (simp add: str_def)
  qed
qed

lemma to_table_rows_eq:
  "to_table_rows r = (if rows_printable r then Inr (rows_text r) else Inl ValueError)"
proof (cases "rows_printable r")
  case True
  with to_table_rows_printable[OF True] show ?thesis by simp
next
  case False
  then obtain it its where its: "items r = it # its"
    by (cases "items r") (simp_all add: rows_printable_def)
  show ?thesis
  proof (cases "printable (day r) \<and> printable (hour r) \<and> printable (minute r)
                \<and> printable (price it)")
    case first: True
    with False its have "\<not> list_all (\<lambda>it. printable (price it)) its"
      by (simp add: rows_printable_def)
    with to_table_rows_loop_later_eq[of "[key_row r it]" r its] first its False show ?thesis
      by (simp add: to_table_rows_def key_row_def key_cells_def item_cells_def)
  next
    case False
    then have "fstring [Inr ''|'', str (day r),
                      Inr ''|'', format_0 2 (hour r), Inr '':'', format_0 2 (minute r),
                      Inr ''|'', Inr (store r),
                      Inr ''|'', Inr (name it), Inr ''|'', str (price it), Inr ''|'']
               = Inl ValueError"
      by (auto simp: str_def format_0_def)
    with its \<open>\<not> rows_printable r\<close> show ?thesis by (simp add: to_table_rows_def)
  qed
qed

lemma length_rows_text: "length (rows_text r) = length (items r)"
  by (simp add: rows_text_def split: list.splits)

lemma repr_ok_rows_printable: "repr_ok_receipt r \<Longrightarrow> rows_printable r"
  by (induction "items r")
     (auto simp: repr_ok_receipt_def rows_printable_def repr_ok_item_def list_all_iff)

lemma first_position_message_Inr:
  assumes "items r \<noteq> []" and "repr_ok_receipt r"
  shows "\<exists>msg. first_position_message r = Inr msg"
proof -
  from assms(1) have "rows_text r \<noteq> []" using length_rows_text[of r] by auto
  then obtain row rows where "rows_text r = row # rows" by (cases "rows_text r") auto
  with to_table_rows_printable[OF repr_ok_rows_printable[OF assms(2)]] assms(2)
  show ?thesis
    by (simp add: first_position_message_def index_first_def repr_ok_receipt_def)
qed

lemma last_position_message_Inr:
  assumes "items r \<noteq> []" and "repr_ok_receipt r" and "printable (last_line_number r)"
  shows "\<exists>msg. last_position_message r = Inr msg"
proof -
  from assms(1) have "rows_text r \<noteq> []" using length_rows_text[of r] by auto
  with to_table_rows_printable[OF repr_ok_rows_printable[OF assms(2)]] assms(2,3)
  show ?thesis
    by (simp add: last_position_message_def index_last_def repr_ok_receipt_def)
qed

lemma index_last_Inr: "xs \<noteq> [] \<Longrightarrow> index_last xs = Inr (last xs)"
  by (simp add: index_last_def)

text \<open>
  C4 as stated: with a previous receipt, \<open>need an empty row before\<close> is emitted exactly
  when the days differ and no empty row came before the key row. On the code the test is
  \<open>previous day < day\<close>: after the receipt of day 20, the key row of day 10 with no empty
  row before it gets the \<open>wrong order\<close> warning only.
\<close>

theorem separator_warning_counterexample:
  "day (last (self_receipts (after_day_20 10))) \<noteq> 10
   \<and> \<not> is_before_key_empty (after_day_20 10)
   \<and> push_receipt (after_day_20 10)
     = Inr ((after_day_20 10)
         \<lparr>self_logger := [(WARNING, ''wrong order: |10|09:30|Store|Gadget|300| at 2024/04.md:5'')],
          self_receipts := self_receipts (after_day_20 10)
            @ [\<lparr>year = 2024, month = 4, day = 10, hour = 9, minute = 30, store = ''Store'',
                items = [\<lparr>name = ''Gadget'', price = 300, item_line_number = 5\<rparr>],
                receipt_line_number = 5\<rparr>],
          table_key := None, table_items := []\<rparr>)"
  by code_simp

text \<open>
  C4, amended. When a candidate with a calendar date and at least one item is flushed,
  \<open>need an empty row before\<close> is emitted exactly when no empty row came right before its
  key row and either it is the first receipt of the table or the previous receipt's day
  is less than its day; \<open>need not an empty row before\<close> is emitted exactly when an empty
  row came before, a previous receipt exists and its day is not less than the
  candidate's day. (This for a candidate whose prices and line numbers the messages can
  format, those of at most 4300 digits, as every parsed price is.)
\<close>

theorem push_receipt_separator_warnings:
  assumes k: "table_key p = Some k"
      and valid: "datetime (candidate p k) = Inr t"
      and item: "table_items p \<noteq> []"
      and prev: "list_all (\<lambda>r. datetime r = Inr (timestamp r)) (self_receipts p)"
      and repr: "repr_ok_receipt (candidate p k)"
  shows "\<exists>p' em msg. push_receipt p = Inr p' \<and> self_logger p' = self_logger p @ em
      \<and> first_position_message (candidate p k) = Inr msg
      \<and> ((WARNING, ''need an empty row before: '' @ msg) \<in> set em \<longleftrightarrow>
           (self_receipts p = [] \<or> day (last (self_receipts p)) < key_day k)
           \<and> \<not> is_before_key_empty p)
      \<and> ((WARNING, ''need not an empty row before: '' @ msg) \<in> set em \<longleftrightarrow>
           self_receipts p \<noteq> [] \<and> \<not> day (last (self_receipts p)) < key_day k
           \<and> is_before_key_empty p)"
proof -
  have "items (candidate p k) \<noteq> []" using item by (simp add: candidate_def)
  from first_position_message_Inr[OF this repr] obtain msg where
    msg: "first_position_message (candidate p k) = Inr msg" by auto
  have t: "dt_day t = key_day k" using valid
    by (auto simp: datetime_Inr timestamp_def dt_day_def candidate_def)
  show ?thesis
  proof (cases "self_receipts p = []")
    case True
    show ?thesis using k valid msg True repr
      by (auto simp: push_receipt_def Let_def validate_order_def validate_empty_row_def
                     emit_first_def emit_def)
  next
    case False
    then have "last (self_receipts p) \<in> set (self_receipts p)" by simp
    with prev have lastv: "datetime (last (self_receipts p)) = Inr (timestamp (last (self_receipts p)))"
      by (auto simp: list_all_iff)
    have d: "dt_day (timestamp (last (self_receipts p))) = day (last (self_receipts p))"
      by (simp add: timestamp_def dt_day_def)
    show ?thesis using k valid msg False lastv d t repr
      by (auto simp: push_receipt_def Let_def validate_order_def validate_empty_row_def
                     emit_first_def emit_def index_last_Inr)
  qed
qed

theorem push_receipt_separator_warnings_witness:
  "table_key (after_day_20 21)
     = Some \<lparr>key_day = 21, key_hour = 9, key_minute = 30, key_store = ''Store'',
             key_line_number = 5\<rparr>
   \<and> table_items (after_day_20 21) \<noteq> []
   \<and> (\<exists>p' em msg. push_receipt (after_day_20 21) = Inr p'
        \<and> self_logger p' = self_logger (after_day_20 21) @ em
        \<and> (WARNING, ''need an empty row before: '' @ msg) \<in> set em
        \<and> (WARNING, ''need not an empty row before: '' @ msg) \<notin> set em)"
proof -
  let ?k = "\<lparr>key_day = 21, key_hour = 9, key_minute = 30, key_store = ''Store'',
             key_line_number = 5\<rparr>"
  have 1: "table_key (after_day_20 21) = Some ?k" by (simp add: after_day_20_def)
  have 2: "datetime (candidate (after_day_20 21) ?k) = Inr (2024, 4, 21, 9, 30)"
    by code_simp
  have 3: "table_items (after_day_20 21) \<noteq> []" by (simp add: after_day_20_def)
  have 4: "list_all (\<lambda>r. datetime r = Inr (timestamp r)) (self_receipts (after_day_20 21))"
    by code_simp
  have 5: "day (last (self_receipts (after_day_20 21))) < key_day ?k"
    by (simp add: after_day_20_def)
  have 6: "\<not> is_before_key_empty (after_day_20 21)" "self_receipts (after_day_20 21) \<noteq> []"
    by (simp_all add: after_day_20_def)
  have 7: "repr_ok_receipt (candidate (after_day_20 21) ?k)" by code_simp
  from push_receipt_separator_warnings[OF 1 2 3 4 7] 1 3 5 6 show ?thesis by blast
qed

text \<open>
  The flush outside these hypotheses: a candidate with an integer that \<open>repr\<close> cannot
  format makes the debug record raise \<open>ValueError\<close>, and the \<open>OverflowError\<close> of
  \<open>datetime\<close> is not caught.
\<close>

lemma push_receipt_unprintable:
  "table_key p = Some k \<Longrightarrow> \<not> repr_ok_receipt (candidate p k)
     \<Longrightarrow> push_receipt p = Inl ValueError"
  by (simp add: push_receipt_def Let_def)

lemma push_receipt_overflow:
  "table_key p = Some k \<Longrightarrow> repr_ok_receipt (candidate p k)
     \<Longrightarrow> datetime (candidate p k) = Inl OverflowError
     \<Longrightarrow> push_receipt p = Inl OverflowError"
  by (simp add: push_receipt_def Let_def)

section \<open>A candidate that has no calendar date\<close>

text \<open>
  When the candidate has at least one item, and its prices and line numbers are
  printable, the flush of a candidate whose \<open>datetime\<close> raises \<open>ValueError\<close> emits the
  error and drops the candidate: the list of receipts is unchanged.
\<close>

lemma push_receipt_invalid_datetime:
  assumes "table_key p = Some k" and "datetime (candidate p k) = Inl ValueError"
      and "table_items p \<noteq> []" and "repr_ok_receipt (candidate p k)"
  shows "\<exists>msg. first_position_message (candidate p k) = Inr msg
       \<and> push_receipt p = Inr (p\<lparr>table_key := None, table_items := [],
             self_logger := self_logger p @ [(ERROR, ''invalid datetime: '' @ msg)]\<rparr>)"
proof -
  have "items (candidate p k) \<noteq> []" using assms(3) by (simp add: candidate_def)
  from first_position_message_Inr[OF this assms(4)] obtain msg where
    msg: "first_position_message (candidate p k) = Inr msg" by auto
  with assms show ?thesis
    by (simp add: push_receipt_def Let_def emit_first_def emit_def)
qed

section \<open>The receipts of a table\<close>

lemma emit_fields [simp]:
  "self_year (emit lv msg p) = self_year p"
  "self_month (emit lv msg p) = self_month p"
  "self_receipts (emit lv msg p) = self_receipts p"
  "is_last_empty (emit lv msg p) = is_last_empty p"
  "is_before_key_empty (emit lv msg p) = is_before_key_empty p"
  "table_key (emit lv msg p) = table_key p"
  "table_items (emit lv msg p) = table_items p"
  "self_logger (emit lv msg p) = self_logger p @ [(lv, msg)]"
  by (simp_all add: emit_def)

lemma pending_emit [simp]:
  "pending_valid (emit lv msg p) = pending_valid p"
  "pending_receipts (emit lv msg p) rows = pending_receipts p rows"
  by (simp_all add: pending_valid_def pending_receipts_def candidate_def split: option.splits)

lemma pending_logger [simp]:
  "pending_valid (p\<lparr>self_logger := lg\<rparr>) = pending_valid p"
  "pending_receipts (p\<lparr>self_logger := lg\<rparr>) rows = pending_receipts p rows"
  by (simp_all add: pending_valid_def pending_receipts_def candidate_def split: option.splits)

lemma candidate_valid:
  "valid_datetime (self_year p) (self_month p) (key_day k) (key_hour k) (key_minute k)
     \<Longrightarrow> datetime (candidate p k) = Inr (timestamp (candidate p k))"
  by (simp add: datetime_Inr candidate_def)

lemma push_receipt_flush:
  assumes "push_receipt p = Inr p'" and "pending_valid p"
  shows "\<exists>lg. p' = p\<lparr>table_key := None, table_items := [], self_logger := lg,
                      self_receipts := self_receipts p @ pending_receipts p []\<rparr>"
proof (cases "table_key p")
  case None
  with assms have "p' = p" "table_items p = []"
    by (simp_all add: push_receipt_None pending_valid_def)
  with None have "p' = p\<lparr>table_key := None, table_items := [], self_logger := self_logger p,
                      self_receipts := self_receipts p @ pending_receipts p []\<rparr>"
    by (simp add: pending_receipts_def)
  then show ?thesis by blast
next
  case (Some k)
  with assms(2) have "datetime (candidate p k) = Inr (timestamp (candidate p k))"
    by (simp add: pending_valid_def candidate_valid)
  moreover have "(candidate p k)\<lparr>items := table_items p\<rparr> = candidate p k"
    by (simp add: candidate_def)
  ultimately show ?thesis using push_receipt_Some[OF Some assms(1)] Some
    by (simp add: pending_receipts_def)
qed

lemma push_step:
  assumes push: "push row p = Inr q"
      and pv: "pending_valid p"
      and vk: "valid_keys (self_year p) (self_month p) [row]"
      and no: "no_orphan_items (table_key p \<noteq> None) (row # rows)"
  shows "self_year q = self_year p \<and> self_month q = self_month p \<and> pending_valid q
       \<and> no_orphan_items (table_key q \<noteq> None) rows
       \<and> self_receipts q @ pending_receipts q rows
           = self_receipts p @ pending_receipts p (row # rows)
              @ (case key row of None \<Rightarrow> []
                 | Some k \<Rightarrow> [\<lparr>year = self_year p, month = self_month p, day = key_day k,
                     hour = key_hour k, minute = key_minute k, store = key_store k,
                     items = (case item row of Some i \<Rightarrow> [i] | None \<Rightarrow> []) @ items_until_next rows,
                     receipt_line_number = key_line_number k\<rparr>])"
proof (cases "is_empty row")
  case True
  from push True obtain p1 q' where p1: "warn_consecutive row p = Inr p1"
    and q': "push_receipt p1 = Inr q'" and q: "q = q'\<lparr>is_last_empty := True\<rparr>"
    by (auto simp: push_def Let_def and_then_eq_Inr)
  from warn_consecutive_logger_only[OF p1] obtain lg1 where
    lg1: "p1 = p\<lparr>self_logger := lg1\<rparr>" by blast
  have pv': "pending_valid p1" using pv lg1 by simp
  from push_receipt_flush[OF q' pv'] obtain lg where
    "q' = p1\<lparr>table_key := None, table_items := [], self_logger := lg,
                      self_receipts := self_receipts p1 @ pending_receipts p1 []\<rparr>" by blast
  with q True no lg1 show ?thesis
    by (simp add: is_empty_def pending_valid_def pending_receipts_def candidate_def
             split: option.splits)
next
  case False
  show ?thesis
  proof (cases "key row")
    case None
    with False obtain i where i: "item row = Some i" by (auto simp: is_empty_def)
    from no None False have opened: "table_key p \<noteq> None" by simp
    then obtain k where k: "table_key p = Some k" by auto
    from push None False i have q: "q = p\<lparr>table_items := table_items p @ [i], is_last_empty := False\<rparr>"
      by (simp add: push_def Let_def)
    with None False i k pv no show ?thesis
      by (simp add: pending_valid_def pending_receipts_def candidate_def)
  next
    case (Some k')
    with push False obtain q' where q': "push_receipt p = Inr q'"
      and q: "q = (case item row of Some i \<Rightarrow> (q'\<lparr>is_before_key_empty := is_last_empty q', table_key := Some k'\<rparr>)\<lparr>table_items := table_items (q'\<lparr>is_before_key_empty := is_last_empty q', table_key := Some k'\<rparr>) @ [i]\<rparr>
                | None \<Rightarrow> q'\<lparr>is_before_key_empty := is_last_empty q', table_key := Some k'\<rparr>)\<lparr>is_last_empty := False\<rparr>"
      by (auto simp: push_def Let_def and_then_eq_Inr)
    from push_receipt_flush[OF q' pv] obtain lg where
      "q' = p\<lparr>table_key := None, table_items := [], self_logger := lg,
                      self_receipts := self_receipts p @ pending_receipts p []\<rparr>" by blast
    with q Some False vk no show ?thesis
      by (simp add: pending_valid_def pending_receipts_def candidate_def valid_keys_def
               split: option.splits)
  qed
qed

lemma push_rows_receipts:
  "push_rows rows p = Inr p' \<Longrightarrow> pending_valid p
     \<Longrightarrow> valid_keys (self_year p) (self_month p) rows
     \<Longrightarrow> no_orphan_items (table_key p \<noteq> None) rows
     \<Longrightarrow> pending_valid p'
       \<and> self_receipts p' @ pending_receipts p' []
           = self_receipts p @ pending_receipts p rows
               @ expected_receipts (self_year p) (self_month p) rows"
proof (induction rows arbitrary: p)
  case Nil
  then show ?case by simp
next
  case (Cons row rows)
  from Cons.prems(1) obtain q where q: "push row p = Inr q" and r: "push_rows rows q = Inr p'"
    by (auto simp: and_then_eq_Inr)
  from Cons.prems(3) have vk1: "valid_keys (self_year p) (self_month p) [row]"
    and vk2: "valid_keys (self_year p) (self_month p) rows" by (simp_all add: valid_keys_def)
  note step = push_step[OF q Cons.prems(2) vk1 Cons.prems(4)]
  from step vk2 have vk3: "valid_keys (self_year q) (self_month q) rows" by simp
  from Cons.IH[OF r _ vk3] step
  have "pending_valid p'" and
    "self_receipts p' @ pending_receipts p' []
       = self_receipts q @ pending_receipts q rows
           @ expected_receipts (self_year q) (self_month q) rows" by simp_all
  with step show ?case by (simp split: option.splits)
qed

lemma length_expected_receipts:
  "length (expected_receipts y m rows) = length (filter (\<lambda>row. key row \<noteq> None) rows)"
  by (induction rows) (auto split: option.splits)

subsection \<open>Tables on which the assembler returns\<close>

lemma with_items_candidate:
  assumes "with_items p" and "table_key p = Some k"
  shows "repr_ok_receipt (candidate p k)" and "items (candidate p k) \<noteq> []"
    and "datetime (candidate p k) = Inr (timestamp (candidate p k))"
proof -
  from assms show "repr_ok_receipt (candidate p k)"
    by (simp add: with_items_def repr_ok_receipt_def repr_ok_key_def candidate_def)
  from assms show "items (candidate p k) \<noteq> []" by (simp add: with_items_def candidate_def)
  from assms show "datetime (candidate p k) = Inr (timestamp (candidate p k))"
    by (simp add: with_items_def pending_valid_def candidate_valid)
qed

lemma push_receipt_returns:
  assumes "with_items p"
  shows "\<exists>p'. push_receipt p = Inr p'"
proof (cases "table_key p")
  case None
  then show ?thesis by (simp add: push_receipt_None)
next
  case (Some k)
  note c = with_items_candidate[OF assms Some]
  from first_position_message_Inr[OF c(2,1)] obtain msg where
    msg: "first_position_message (candidate p k) = Inr msg" by auto
  show ?thesis
  proof (cases "self_receipts p = []")
    case True
    with Some c msg show ?thesis
      by (simp add: push_receipt_def Let_def validate_order_def validate_empty_row_def
                    emit_first_def)
  next
    case False
    then have "last (self_receipts p) \<in> set (self_receipts p)" by simp
    with assms have "datetime (last (self_receipts p)) = Inr (timestamp (last (self_receipts p)))"
      by (auto simp: with_items_def list_all_iff)
    with Some c msg False show ?thesis
      by (simp add: push_receipt_def Let_def validate_order_def validate_empty_row_def
                    emit_first_def index_last_Inr)
  qed
qed

lemma flush_with_items:
  assumes "with_items p"
  shows "\<exists>p' lg. push_receipt p = Inr p'
           \<and> p' = p\<lparr>table_key := None, table_items := [], self_logger := lg,
                     self_receipts := self_receipts p @ pending_receipts p []\<rparr>
           \<and> with_items p'"
proof -
  from push_receipt_returns[OF assms] obtain p' where p': "push_receipt p = Inr p'" by blast
  from assms have pv: "pending_valid p" by (simp add: with_items_def)
  from push_receipt_flush[OF p' pv] obtain lg where
    eq: "p' = p\<lparr>table_key := None, table_items := [], self_logger := lg,
                      self_receipts := self_receipts p @ pending_receipts p []\<rparr>" by blast
  have "list_all (\<lambda>r. items r \<noteq> [] \<and> datetime r = Inr (timestamp r) \<and> repr_ok_receipt r)
          (pending_receipts p [])"
  proof (cases "table_key p")
    case None
    then show ?thesis by (simp add: pending_receipts_def)
  next
    case (Some k)
    have "(candidate p k)\<lparr>items := table_items p\<rparr> = candidate p k"
      by (simp add: candidate_def)
    with with_items_candidate[OF assms Some] Some show ?thesis
      by (simp add: pending_receipts_def)
  qed
  with assms eq have "with_items p'" by (simp add: with_items_def pending_valid_def)
  with p' eq show ?thesis by blast
qed

lemma with_items_logger [simp]: "with_items (p\<lparr>self_logger := lg\<rparr>) = with_items p"
  by (simp add: with_items_def)

lemma with_items_is_last_empty [simp]:
  "with_items (p\<lparr>is_last_empty := b\<rparr>) = with_items p"
  by (simp add: with_items_def pending_valid_def split: option.splits)

lemma warn_consecutive_returns:
  assumes "with_items p" and "printable (row_line_number row)"
  shows "\<exists>lg. warn_consecutive row p = Inr (p\<lparr>self_logger := lg\<rparr>)"
proof (cases "is_last_empty p")
  case True
  with assms obtain q where q: "warn_consecutive row p = Inr q"
    by (simp add: warn_consecutive_def with_items_def)
  from warn_consecutive_logger_only[OF q] q show ?thesis by auto
next
  case False
  then show ?thesis using logger_only_refl[of p] by (simp add: warn_consecutive_def)
qed

lemma push_returns:
  assumes w: "with_items p"
      and vk: "valid_keys (self_year p) (self_month p) [row]"
      and ki: "key_rows_have_items [row]"
      and no: "no_orphan_items (table_key p \<noteq> None) (row # rows)"
      and ok: "repr_ok_row row"
  shows "\<exists>q. push row p = Inr q \<and> with_items q \<and> (is_last_empty q \<or> table_key q \<noteq> None)"
proof (cases "is_empty row")
  case True
  from ok have "printable (row_line_number row)" by (simp add: repr_ok_row_def)
  from warn_consecutive_returns[OF w this] obtain lg where
    lg: "warn_consecutive row p = Inr (p\<lparr>self_logger := lg\<rparr>)" by blast
  have "with_items (p\<lparr>self_logger := lg\<rparr>)" using w by simp
  from flush_with_items[OF this] obtain p' where
    p': "push_receipt (p\<lparr>self_logger := lg\<rparr>) = Inr p'" "with_items p'"
    by blast
  with True lg show ?thesis by (simp add: push_def Let_def)
next
  case False
  show ?thesis
  proof (cases "key row")
    case None
    with False obtain i where i: "item row = Some i" by (auto simp: is_empty_def)
    from no None False have "table_key p \<noteq> None" by simp
    with w None False i ok show ?thesis
      by (auto simp: push_def Let_def with_items_def pending_valid_def repr_ok_row_def)
  next
    case (Some k)
    with ki obtain i where i: "item row = Some i" by (auto simp: key_rows_have_items_def)
    from flush_with_items[OF w] obtain p' lg where p': "push_receipt p = Inr p'"
      "p' = p\<lparr>table_key := None, table_items := [], self_logger := lg,
                     self_receipts := self_receipts p @ pending_receipts p []\<rparr>"
      "with_items p'" by blast
    with Some i False vk ok show ?thesis
      by (simp add: push_def Let_def with_items_def pending_valid_def valid_keys_def
                    repr_ok_row_def)
  qed
qed

lemma push_rows_returns:
  "with_items p \<Longrightarrow> valid_keys (self_year p) (self_month p) rows
     \<Longrightarrow> key_rows_have_items rows \<Longrightarrow> no_orphan_items (table_key p \<noteq> None) rows
     \<Longrightarrow> list_all repr_ok_row rows
     \<Longrightarrow> \<exists>p'. push_rows rows p = Inr p' \<and> with_items p'
            \<and> (rows \<noteq> [] \<longrightarrow> is_last_empty p' \<or> table_key p' \<noteq> None)"
proof (induction rows arbitrary: p)
  case Nil
  then show ?case by simp
next
  case (Cons row rows)
  from Cons.prems(2) have vk1: "valid_keys (self_year p) (self_month p) [row]"
    and vk2: "valid_keys (self_year p) (self_month p) rows" by (simp_all add: valid_keys_def)
  from Cons.prems(3) have ki1: "key_rows_have_items [row]" and ki2: "key_rows_have_items rows"
    by (simp_all add: key_rows_have_items_def)
  from Cons.prems(5) have ok1: "repr_ok_row row" and ok2: "list_all repr_ok_row rows"
    by simp_all
  from push_returns[OF Cons.prems(1) vk1 ki1 Cons.prems(4) ok1] obtain q where
    q: "push row p = Inr q" "with_items q" "is_last_empty q \<or> table_key q \<noteq> None" by blast
  from Cons.prems(1) have pv: "pending_valid p" by (simp add: with_items_def)
  note step = push_step[OF q(1) pv vk1 Cons.prems(4)]
  from step vk2 have vk3: "valid_keys (self_year q) (self_month q) rows" by simp
  from step have no: "no_orphan_items (table_key q \<noteq> None) rows" by simp
  from Cons.IH[OF q(2) vk3 ki2 no ok2] obtain p' where
    p': "push_rows rows q = Inr p'" "with_items p'"
        "rows \<noteq> [] \<longrightarrow> is_last_empty p' \<or> table_key p' \<noteq> None" by blast
  show ?case
  proof (cases rows)
    case Nil
    with q p' show ?thesis by auto
  next
    case (Cons a list)
    with q p' show ?thesis by auto
  qed
qed

lemma result_returns:
  assumes w: "with_items p" and e: "is_last_empty p \<or> table_key p \<noteq> None"
      and pl: "list_all (\<lambda>r. printable (last_line_number r))
                 (self_receipts p @ pending_receipts p [])"
  shows "\<exists>rs lg. result p = Inr (rs, lg)"
proof -
  from flush_with_items[OF w] obtain p' lg where p': "push_receipt p = Inr p'"
      "p' = p\<lparr>table_key := None, table_items := [], self_logger := lg,
                     self_receipts := self_receipts p @ pending_receipts p []\<rparr>"
      "with_items p'" by blast
  show ?thesis
  proof (cases "is_last_empty p'")
    case True
    with p' show ?thesis by (simp add: result_def)
  next
    case False
    with p'(2) e have "table_key p \<noteq> None" by auto
    with p'(2) have ne: "self_receipts p' \<noteq> []" by (auto simp: pending_receipts_def)
    then have mem: "last (self_receipts p') \<in> set (self_receipts p')" by simp
    with p'(3) have it: "items (last (self_receipts p')) \<noteq> []"
      and ok: "repr_ok_receipt (last (self_receipts p'))"
      by (auto simp: with_items_def list_all_iff)
    from mem pl p'(2) have "printable (last_line_number (last (self_receipts p')))"
      by (auto simp: list_all_iff)
    from last_position_message_Inr[OF it ok this] obtain msg where
      "last_position_message (last (self_receipts p')) = Inr msg" by blast
    with p'(1) False ne show ?thesis by (simp add: result_def index_last_Inr)
  qed
qed

lemma parse_table_returns:
  assumes "rows \<noteq> []" and "valid_keys y m rows" and "key_rows_have_items rows"
      and "no_orphan_items False rows"
      and "printable y" and "printable m" and "list_all repr_ok_row rows"
      and "list_all (\<lambda>r. printable (last_line_number r)) (expected_receipts y m rows)"
  shows "\<exists>lg'. parse_table y m lg rows = Inr (expected_receipts y m rows, lg')"
proof -
  have w: "with_items (init y m lg)" using assms(5,6)
    by (simp add: with_items_def pending_valid_def init_def)
  have vk: "valid_keys (self_year (init y m lg)) (self_month (init y m lg)) rows"
    using assms(2) by (simp add: init_def)
  have no: "no_orphan_items (table_key (init y m lg) \<noteq> None) rows"
    using assms(4) by (simp add: init_def)
  from push_rows_returns[OF w vk assms(3) no assms(7)] assms(1) obtain p where
    p: "push_rows rows (init y m lg) = Inr p" "with_items p"
       "is_last_empty p \<or> table_key p \<noteq> None"
    by blast
  from push_rows_receipts[OF p(1)] assms(2,4)
  have pv: "pending_valid p"
    and eq: "self_receipts p @ pending_receipts p [] = expected_receipts y m rows"
    by (simp_all add: init_def pending_receipts_def pending_valid_def)
  from assms(8) eq have "list_all (\<lambda>r. printable (last_line_number r))
                 (self_receipts p @ pending_receipts p [])" by simp
  from result_returns[OF p(2,3) this] obtain rs lg' where r: "result p = Inr (rs, lg')" by blast
  with p(1) have pt: "parse_table y m lg rows = Inr (rs, lg')" by (simp add: parse_table_def)
  from result_receipts[OF r] obtain p' where p': "push_receipt p = Inr p'" and rs: "rs = self_receipts p'"
    by auto
  from push_receipt_flush[OF p' pv] rs eq have "rs = expected_receipts y m rows" by auto
  with pt show ?thesis by blast
qed

subsection \<open>The result of the assembler\<close>

text \<open>
  C2 as stated: in a table whose rows all parse and whose candidates all have a
  calendar date, the items of a receipt are the item cells from its key row up to the
  next key row or empty row. On the code an item row that comes before any key row is
  kept and goes into the next receipt.
\<close>

theorem orphan_item_counterexample:
  "valid_keys 2024 4 orphan_rows
   \<and> parse_table 2024 4 [] orphan_rows
     = Inr ([\<lparr>year = 2024, month = 4, day = 15, hour = 9, minute = 30, store = ''Store'',
              items = [\<lparr>name = ''Orphan'', price = 1, item_line_number = 2\<rparr>,
                       \<lparr>name = ''Widget'', price = 500, item_line_number = 5\<rparr>,
                       \<lparr>name = ''Gadget'', price = 300, item_line_number = 6\<rparr>],
              receipt_line_number = 5\<rparr>], [])
   \<and> expected_receipts 2024 4 orphan_rows
     = [\<lparr>year = 2024, month = 4, day = 15, hour = 9, minute = 30, store = ''Store'',
         items = [\<lparr>name = ''Widget'', price = 500, item_line_number = 5\<rparr>,
                  \<lparr>name = ''Gadget'', price = 300, item_line_number = 6\<rparr>],
         receipt_line_number = 5\<rparr>]"
  by code_simp

text \<open>
  C2, amended. For a table whose rows all parse, whose candidates all have a calendar
  date and in which every item row without a key follows a key row with no empty row in
  between, the result of the assembler, when it returns, has exactly one receipt per
  key row, in order, and the items of each receipt are the item cells from its key row
  up to the next key row or empty row. It does return when the table has a row, every
  key row carries an item, and every integer that a message formats (the year, the
  month, those of the rows, the number of the last line of each receipt) has at most
  4300 digits.
\<close>

theorem parse_table_receipts:
  assumes "valid_keys y m rows" and "no_orphan_items False rows"
  shows "(parse_table y m lg rows = Inr (rs, lg')
            \<longrightarrow> rs = expected_receipts y m rows
                \<and> length rs = length (filter (\<lambda>row. key row \<noteq> None) rows))
       \<and> (rows \<noteq> [] \<and> key_rows_have_items rows
          \<and> printable y \<and> printable m \<and> list_all repr_ok_row rows
          \<and> list_all (\<lambda>r. printable (last_line_number r)) (expected_receipts y m rows)
            \<longrightarrow> (\<exists>lg''. parse_table y m lg rows = Inr (expected_receipts y m rows, lg'')))"
proof (intro conjI impI)
  assume r: "parse_table y m lg rows = Inr (rs, lg')"
  then obtain p where p: "push_rows rows (init y m lg) = Inr p" and r: "result p = Inr (rs, lg')"
    by (auto simp: parse_table_def and_then_eq_Inr)
  have "pending_valid (init y m lg)" by (simp add: pending_valid_def init_def)
  from push_rows_receipts[OF p this] assms(1,2)
  have pv: "pending_valid p"
    and eq: "self_receipts p @ pending_receipts p [] = expected_receipts y m rows"
    by (simp_all add: init_def pending_receipts_def)
  from result_receipts[OF r] obtain p' where p': "push_receipt p = Inr p'" and rs: "rs = self_receipts p'"
    by auto
  from push_receipt_flush[OF p' pv] rs eq show "rs = expected_receipts y m rows" by auto
  then show "length rs = length (filter (\<lambda>row. key row \<noteq> None) rows)"
    by (simp add: length_expected_receipts)
next
  assume "rows \<noteq> [] \<and> key_rows_have_items rows
          \<and> printable y \<and> printable m \<and> list_all repr_ok_row rows
          \<and> list_all (\<lambda>r. printable (last_line_number r)) (expected_receipts y m rows)"
  with parse_table_returns[of rows y m lg] assms
  show "\<exists>lg''. parse_table y m lg rows = Inr (expected_receipts y m rows, lg'')" by blast
qed

theorem parse_table_receipts_witness:
  "valid_keys 2024 4 example_rows \<and> no_orphan_items False example_rows
   \<and> example_rows \<noteq> [] \<and> key_rows_have_items example_rows
   \<and> parse_table 2024 4 [] example_rows
     = Inr ([\<lparr>year = 2024, month = 4, day = 15, hour = 9, minute = 30, store = ''Store'',
              items = [\<lparr>name = ''Widget'', price = 500, item_line_number = 5\<rparr>,
                       \<lparr>name = ''Gadget'', price = 300, item_line_number = 6\<rparr>],
              receipt_line_number = 5\<rparr>], [])
   \<and> [\<lparr>year = 2024, month = 4, day = 15, hour = 9, minute = 30, store = ''Store'',
              items = [\<lparr>name = ''Widget'', price = 500, item_line_number = 5\<rparr>,
                       \<lparr>name = ''Gadget'', price = 300, item_line_number = 6\<rparr>],
              receipt_line_number = 5\<rparr>] = expected_receipts 2024 4 example_rows
   \<and> length [\<lparr>year = 2024, month = 4, day = 15, hour = 9, minute = 30, store = ''Store'',
              items = [\<lparr>name = ''Widget'', price = 500, item_line_number = 5\<rparr>,
                       \<lparr>name = ''Gadget'', price = 300, item_line_number = 6\<rparr>],
              receipt_line_number = 5\<rparr>]
       = length (filter (\<lambda>row. key row \<noteq> None) example_rows)
   \<and> (\<exists>lg''. parse_table 2024 4 [] example_rows
                = Inr (expected_receipts 2024 4 example_rows, lg''))"
proof -
  have 1: "valid_keys 2024 4 example_rows" by code_simp
  have 2: "no_orphan_items False example_rows" by code_simp
  have 3: "parse_table 2024 4 [] example_rows
     = Inr ([\<lparr>year = 2024, month = 4, day = 15, hour = 9, minute = 30, store = ''Store'',
              items = [\<lparr>name = ''Widget'', price = 500, item_line_number = 5\<rparr>,
                       \<lparr>name = ''Gadget'', price = 300, item_line_number = 6\<rparr>],
              receipt_line_number = 5\<rparr>], [])" by code_simp
  have 4: "example_rows \<noteq> []" by (simp add: example_rows_def)
  have 5: "key_rows_have_items example_rows" by code_simp
  have 6: "printable 2024" "printable 4" "list_all repr_ok_row example_rows"
    "list_all (\<lambda>r. printable (last_line_number r)) (expected_receipts 2024 4 example_rows)"
    by code_simp+
  from parse_table_receipts[OF 1 2, of "[]"] 1 2 3 4 5 6 show ?thesis by blast
qed

section \<open>The matcher and the words it accepts\<close>

lemma set_plus_splits:
  "set (plus_splits p s) = {s'. \<exists>w. s = w @ s' \<and> w \<noteq> [] \<and> list_all p w}"
proof (induction s)
  case Nil
  then show ?case by simp
next
  case (Cons c cs)
  show ?case
  proof (cases "p c")
    case False
    have "\<And>w s'. c # cs = w @ s' \<Longrightarrow> w \<noteq> [] \<Longrightarrow> list_all p w \<Longrightarrow> False"
      using False by (case_tac w) auto
    with False show ?thesis by auto
  next
    case True
    have "{s'. \<exists>w. c # cs = w @ s' \<and> w \<noteq> [] \<and> list_all p w}
        = insert cs {s'. \<exists>w. cs = w @ s' \<and> w \<noteq> [] \<and> list_all p w}" (is "?L = ?R")
    proof (intro set_eqI iffI)
      fix s' assume "s' \<in> ?L"
      then obtain w where w: "c # cs = w @ s'" "w \<noteq> []" "list_all p w" by auto
      then obtain w' where w': "w = c # w'" by (cases w) auto
      with w have "cs = w' @ s'" "list_all p w'" by auto
      then show "s' \<in> ?R" by (cases "w' = []") auto
    next
      fix s' assume "s' \<in> ?R"
      then consider "s' = cs" | w where "cs = w @ s'" "w \<noteq> []" "list_all p w" by auto
      then show "s' \<in> ?L"
      proof cases
        case 1
        then have "c # cs = [c] @ s' \<and> [c] \<noteq> [] \<and> list_all p [c]" using True by simp
        then show ?thesis by blast
      next
        case 2
        then have "c # cs = (c # w) @ s' \<and> c # w \<noteq> [] \<and> list_all p (c # w)" using True by simp
        then show ?thesis by blast
      qed
    qed
    with True Cons.IH show ?thesis by simp
  qed
qed

lemma set_matches:
  "set (matches r s g) = {(s', g'). \<exists>w. s = w @ s' \<and> derives r w g g'}"
proof (induction r arbitrary: s g)
  case (Cls p)
  show ?case
  proof (cases s)
    case Nil
    then show ?thesis by auto
  next
    case (Cons c cs)
    have "\<And>w s'. c # cs = w @ s' \<Longrightarrow> length w = 1 \<Longrightarrow> w = [c] \<and> s' = cs"
      by (case_tac w) auto
    with Cons show ?thesis by (auto simp: length_Suc_conv)
  qed
next
  case (Plus p)
  show ?case by (auto simp: set_plus_splits)
next
  case (Times n p)
  have "\<And>w s'. s = w @ s' \<Longrightarrow> length w = n \<Longrightarrow> w = take n s \<and> s' = drop n s" by auto
  moreover have "n \<le> length s \<Longrightarrow> s = take n s @ drop n s \<and> length (take n s) = n" by simp
  ultimately show ?case by (auto simp del: append_take_drop_id) 
next
  case (Opt r)
  then show ?case by auto
next
  case (Seq r1 r2)
  have "(s', g') \<in> set (matches (Seq r1 r2) s g)
          \<longleftrightarrow> (\<exists>w. s = w @ s' \<and> derives (Seq r1 r2) w g g')" for s' g'
  proof
    assume "(s', g') \<in> set (matches (Seq r1 r2) s g)"
    then obtain s1 g1 where 1: "(s1, g1) \<in> set (matches r1 s g)" and 2: "(s', g') \<in> set (matches r2 s1 g1)"
      by auto
    from 1 Seq.IH(1) obtain w1 where w1: "s = w1 @ s1" "derives r1 w1 g g1" by auto
    from 2 Seq.IH(2) obtain w2 where w2: "s1 = w2 @ s'" "derives r2 w2 g1 g'" by auto
    from w1 w2 have "s = (w1 @ w2) @ s' \<and> derives (Seq r1 r2) (w1 @ w2) g g'" by auto
    then show "\<exists>w. s = w @ s' \<and> derives (Seq r1 r2) w g g'" by blast
  next
    assume "\<exists>w. s = w @ s' \<and> derives (Seq r1 r2) w g g'"
    then obtain w w1 w2 g1 where s: "s = w @ s'"
      and w: "w = w1 @ w2" "derives r1 w1 g g1" "derives r2 w2 g1 g'" by auto
    with s have "(w2 @ s', g1) \<in> set (matches r1 s g)" using Seq.IH(1) by auto
    moreover have "(s', g') \<in> set (matches r2 (w2 @ s') g1)" using w Seq.IH(2) by auto
    ultimately show "(s', g') \<in> set (matches (Seq r1 r2) s g)" by force
  qed
  then show ?case by (auto simp del: matches.simps derives.simps)
next
  case (Alt r1 r2)
  then show ?case by auto
next
  case (Group n r)
  have "(s', g') \<in> set (matches (Group n r) s g)
          \<longleftrightarrow> (\<exists>w. s = w @ s' \<and> derives (Group n r) w g g')" for s' g'
  proof
    assume "(s', g') \<in> set (matches (Group n r) s g)"
    then obtain g1 where 1: "(s', g1) \<in> set (matches r s g)"
      and g': "g' = g1(n \<mapsto> take (length s - length s') s)" by auto
    from 1 Group.IH obtain w where w: "s = w @ s'" "derives r w g g1" by auto
    with g' have "derives (Group n r) w g g'" by auto
    with w show "\<exists>w. s = w @ s' \<and> derives (Group n r) w g g'" by blast
  next
    assume "\<exists>w. s = w @ s' \<and> derives (Group n r) w g g'"
    then obtain w g1 where s: "s = w @ s'" and g1: "derives r w g g1" "g' = g1(n \<mapsto> w)" by auto
    with s have "(s', g1) \<in> set (matches r s g)" using Group.IH by auto
    moreover have "take (length s - length s') s = w" using s by simp
    ultimately show "(s', g') \<in> set (matches (Group n r) s g)" using g1 by force
  qed
  then show ?case by (auto simp del: matches.simps derives.simps)
qed

lemma re_match_None:
  "re_match r s = None \<longleftrightarrow> \<not> (\<exists>w s' g'. s = w @ s' \<and> derives r w Map.empty g')"
proof -
  have "re_match r s = None \<longleftrightarrow> set (matches r s Map.empty) = {}"
    by (auto simp: re_match_def split: list.splits)
  then show ?thesis by (auto simp: set_matches)
qed

lemma re_match_Some:
  assumes "re_match r s = Some g"
  shows "\<exists>w s'. s = w @ s' \<and> derives r w Map.empty g"
proof -
  from assms obtain s' where "(s', g) \<in> set (matches r s Map.empty)"
    by (auto simp: re_match_def split: list.splits)
  then show ?thesis by (auto simp: set_matches)
qed

section \<open>Decimal text\<close>

lemma digit_of_props:
  "0 \<le> d \<Longrightarrow> d < 10 \<Longrightarrow> is_digit (digit_of d) \<and> digit_val (digit_of d) = d"
  by (simp add: is_digit_def digit_of_def digit_val_def)

lemma is_digit_not_special:
  "is_digit c \<Longrightarrow> c \<noteq> CHR ''|'' \<and> c \<noteq> CHR ''-'' \<and> c \<noteq> CHR '':''"
  by (auto simp: is_digit_def)

lemma digit_val_range: "is_digit c \<Longrightarrow> 0 \<le> digit_val c \<and> digit_val c \<le> 9"
  by (simp add: is_digit_def digit_val_def)

lemma decimal_digits: "0 \<le> n \<Longrightarrow> decimal n \<noteq> [] \<and> list_all is_digit (decimal n)"
proof (induction n rule: decimal.induct)
  case (1 n)
  show ?case
  proof (cases "n < 10")
    case True
    with 1 show ?thesis by (simp add: decimal.simps[of n] digit_of_props)
  next
    case False
    with 1 show ?thesis by (simp add: decimal.simps[of n] digit_of_props)
  qed
qed

lemma int_of_digits_snoc: "int_of_digits (ds @ [c]) = 10 * int_of_digits ds + digit_val c"
  by (simp add: int_of_digits_def)

lemma int_of_digits_decimal: "0 \<le> n \<Longrightarrow> int_of_digits (decimal n) = n"
proof (induction n rule: decimal.induct)
  case (1 n)
  show ?case
  proof (cases "n < 10")
    case True
    with 1 show ?thesis by (simp add: decimal.simps[of n] digit_of_props int_of_digits_def)
  next
    case False
    with 1 show ?thesis by (simp add: decimal.simps[of n] digit_of_props int_of_digits_snoc)
  qed
qed

lemma int_of_digits_zeros: "int_of_digits (replicate k CHR ''0'' @ ds) = int_of_digits ds"
proof (induction k)
  case 0
  then show ?case by simp
next
  case (Suc k)
  have "foldl (\<lambda>a c. 10 * a + digit_val c) 0 (CHR ''0'' # xs)
      = foldl (\<lambda>a c. 10 * a + digit_val c) 0 xs" for xs
    by (simp add: digit_val_def)
  with Suc show ?case by (simp add: int_of_digits_def)
qed

lemma int_of_digits_bounds:
  "list_all is_digit ds \<Longrightarrow> 0 \<le> int_of_digits ds \<and> int_of_digits ds < 10 ^ length ds"
proof (induction ds rule: rev_induct)
  case Nil
  then show ?case by (simp add: int_of_digits_def)
next
  case (snoc c ds)
  then have "0 \<le> int_of_digits ds" "int_of_digits ds + 1 \<le> 10 ^ length ds" by simp_all
  moreover from snoc.prems have "0 \<le> digit_val c" "digit_val c \<le> 9"
    using digit_val_range[of c] by simp_all
  ultimately show ?case by (simp add: int_of_digits_snoc)
qed

lemma length_decimal_le: "0 \<le> n \<Longrightarrow> n < 10 ^ k \<Longrightarrow> 0 < k \<Longrightarrow> length (decimal n) \<le> k"
proof (induction k arbitrary: n)
  case 0
  then show ?case by simp
next
  case (Suc k)
  show ?case
  proof (cases "n < 10")
    case True
    then show ?thesis by (simp add: decimal.simps[of n])
  next
    case False
    with Suc.prems have k: "0 < k" by (cases k) simp_all
    from Suc.prems have "0 \<le> n div 10" "n div 10 < 10 ^ k" by simp_all
    from Suc.IH[OF this k] False show ?thesis by (simp add: decimal.simps[of n])
  qed
qed

lemma length_decimal_small:
  "0 \<le> n \<Longrightarrow> n < 100 \<Longrightarrow> length (decimal n) = (if n < 10 then 1 else 2)"
  by (simp add: decimal.simps[of n] decimal.simps[of "n div 10"])

lemma printable_minus [simp]: "printable (- i) = printable i"
  by (simp add: printable_def)

lemma printable_digits:
  assumes "ds \<noteq> []" and "list_all is_digit ds" and "int (length ds) \<le> int_max_str_digits"
  shows "printable (int_of_digits ds)"
proof -
  from int_of_digits_bounds[OF assms(2)] assms(1)
  have "length (decimal (int_of_digits ds)) \<le> length ds"
    by (intro length_decimal_le) simp_all
  moreover have "\<bar>int_of_digits ds\<bar> = int_of_digits ds"
    using int_of_digits_bounds[OF assms(2)] by simp
  ultimately show ?thesis using assms(3) by (simp add: printable_def)
qed

text \<open>The least integer that is not printable is \<open>10 ^ 4300\<close>.\<close>

lemma length_decimal_power: "length (decimal (10 ^ k)) = Suc k"
proof (induction k)
  case 0
  then show ?case by (simp add: decimal.simps[of 1])
next
  case (Suc k)
  have "(1::int) \<le> 10 ^ k" by simp
  then have "\<not> (10::int) * 10 ^ k < 10" by linarith
  with Suc show ?case by (simp add: decimal.simps[of "10 * 10 ^ k"])
qed

lemma printable_power: "printable (10 ^ k) \<longleftrightarrow> int k < int_max_str_digits"
proof -
  have "\<bar>(10::int) ^ k\<bar> = 10 ^ k" by simp
  then have "printable (10 ^ k) \<longleftrightarrow> int (Suc k) \<le> int_max_str_digits"
    by (simp only: printable_def length_decimal_power)
  also have "\<dots> \<longleftrightarrow> int k < int_max_str_digits" by auto
  finally show ?thesis .
qed

lemma printable_below_power:
  assumes "\<bar>i\<bar> < 10 ^ k" and "0 < k" and "int k \<le> int_max_str_digits"
  shows "printable i"
proof -
  from length_decimal_le[of "\<bar>i\<bar>" k] assms have "length (decimal \<bar>i\<bar>) \<le> k" by simp
  with assms(3) show ?thesis by (simp add: printable_def)
qed

lemma printable_small: "0 \<le> i \<Longrightarrow> i < 100 \<Longrightarrow> printable i"
  by (simp add: printable_def length_decimal_small int_max_str_digits_def)

lemma is_digit_zero: "is_digit CHR ''0''"
  by (simp add: is_digit_def)

lemma format_0_2:
  assumes "0 \<le> h" and "h < 100"
  shows "length (format_0_text 2 h) = 2 \<and> list_all is_digit (format_0_text 2 h)
       \<and> int_of_digits (format_0_text 2 h) = h"
proof -
  from length_decimal_small[OF assms]
  have len: "length (decimal h) = (if h < 10 then 1 else 2)" .
  have neg: "\<not> h < 0" using assms by simp
  have dig: "list_all is_digit (decimal h)" using assms by (simp add: decimal_digits)
  have z: "list_all is_digit (replicate k CHR ''0'')" for k
    by (simp add: list_all_iff is_digit_zero)
  show ?thesis using len neg dig z assms
    by (simp add: format_0_text_def int_of_digits_zeros int_of_digits_decimal)
qed

lemma py_int_digits:
  assumes "ds \<noteq> []" and "list_all is_digit ds"
  shows "py_int (Some ds)
       = (if int (length ds) \<le> int_max_str_digits then Inr (int_of_digits ds)
          else Inl ValueError)"
proof -
  from assms have "is_digit (hd ds)" by (cases ds) auto
  then have "hd ds \<noteq> CHR ''-''" using is_digit_not_special by blast
  with assms show ?thesis by (simp add: py_int_def)
qed

lemma digit_count_digits: "ds \<noteq> [] \<Longrightarrow> list_all is_digit ds \<Longrightarrow> digit_count ds = length ds"
proof -
  assume "ds \<noteq> []" "list_all is_digit ds"
  then have "is_digit (hd ds)" by (cases ds) auto
  then have "hd ds \<noteq> CHR ''-''" using is_digit_not_special by blast
  then show ?thesis by (simp add: digit_count_def)
qed

text \<open>\<open>int()\<close> of a price cell: a value when the digits are within the limit, else \<open>ValueError\<close>.\<close>

lemma py_int_signed:
  assumes "signed_digits p"
  shows "if int (digit_count p) \<le> int_max_str_digits
         then \<exists>v. py_int (Some p) = Inr v \<and> printable v
         else py_int (Some p) = Inl ValueError"
proof -
  from assms obtain ds where ds: "ds \<noteq> []" "list_all is_digit ds" "p = ds \<or> p = CHR ''-'' # ds"
    by (auto simp: signed_digits_def)
  from ds(3) show ?thesis
  proof
    assume "p = ds"
    with py_int_digits[OF ds(1,2)] digit_count_digits[OF ds(1,2)] printable_digits[OF ds(1,2)]
    show ?thesis by simp
  next
    assume "p = CHR ''-'' # ds"
    with ds(1,2) printable_digits[OF ds(1,2)] show ?thesis
      by (simp add: py_int_def digit_count_def)
  qed
qed

lemma signed_digits_str_text: "signed_digits (str_text i)"
proof (cases "i < 0")
  case True
  then have "str_text i = CHR ''-'' # decimal (- i)" by (simp add: str_text_def)
  with decimal_digits[of "- i"] True show ?thesis unfolding signed_digits_def by auto
next
  case False
  then have "str_text i = decimal i" by (simp add: str_text_def)
  with decimal_digits[of i] False show ?thesis unfolding signed_digits_def by auto
qed

lemma py_int_str_text:
  assumes "printable i"
  shows "py_int (Some (str_text i)) = Inr i"
proof (cases "i < 0")
  case True
  with assms have "int (length (decimal (- i))) \<le> int_max_str_digits"
    by (simp add: printable_def)
  with True decimal_digits[of "- i"] show ?thesis
    by (simp add: str_text_def py_int_def int_of_digits_decimal)
next
  case False
  with assms have len: "int (length (decimal i)) \<le> int_max_str_digits"
    by (simp add: printable_def)
  from False have "str_text i = decimal i" by (simp add: str_text_def)
  with py_int_digits[of "decimal i"] decimal_digits[of i] False len show ?thesis
    by (simp add: int_of_digits_decimal)
qed

lemma digits_no_bar: "list_all is_digit d \<Longrightarrow> list_all not_bar d"
  by (induction d) (simp_all add: not_bar_def is_digit_not_special)

lemma signed_digits_no_bar:
  assumes "signed_digits p"
  shows "list_all not_bar p"
proof -
  from assms obtain ds where ds: "list_all is_digit ds" "p = ds \<or> p = CHR ''-'' # ds"
    by (auto simp: signed_digits_def)
  from digits_no_bar[OF ds(1)] ds(2) show ?thesis by (auto simp: not_bar_def)
qed

section \<open>The line classifier\<close>

lemma derives_lit [simp]: "derives (lit c) w g g' \<longleftrightarrow> w = [c] \<and> g' = g"
  by (cases w) (auto simp: lit_def)

lemma length_3: "length w = 3 \<longleftrightarrow> (\<exists>a b c. w = [a, b, c])"
  by (auto simp: numeral_3_eq_3 length_Suc_conv)

lemma length_2: "length w = 2 \<longleftrightarrow> (\<exists>a b. w = [a, b])"
  by (auto simp: numeral_2_eq_2 length_Suc_conv)

lemma derives_bars [simp]: "derives (Times 3 is_bar) w g g' \<longleftrightarrow> w = ''|||'' \<and> g' = g"
proof -
  have "length w = 3 \<and> list_all is_bar w \<longleftrightarrow> w = ''|||''"
    unfolding length_3 by (auto simp: is_bar_def)
  then show ?thesis unfolding derives.simps by blast
qed

lemma derives_key_re:
  "derives key_re w g g' \<longleftrightarrow>
     (\<exists>d h mi s. w = key_cells d h mi s \<and> key_fields d h mi s \<and> g' = key_groups g d h mi s)"
  unfolding key_re_def key_cells_def key_fields_def key_groups_def
  apply (rule iffI; clarsimp)
   apply blast
  apply (metis append_Cons)
  done

lemma derives_price_re: "derives price_re w g g' \<longleftrightarrow> signed_digits w \<and> g' = g"
  unfolding signed_digits_def price_re_def
  apply (rule iffI; clarsimp)
   apply (erule disjE; auto)[1]
  apply (erule disjE)
   apply (rule exI[of _ "[]"]; simp)
  apply (rule exI[of _ "''-''"]; simp)
  done

lemma derives_item_re:
  "derives item_re w g g' \<longleftrightarrow>
     (\<exists>n p. w = item_cells n p \<and> item_fields n p \<and> g' = item_groups g n p)"
  unfolding item_re_def item_cells_def item_fields_def item_groups_def
  apply (rule iffI; clarsimp simp: derives_price_re)
   apply blast
  apply (metis append_Cons append_Nil)
  done

lemma derives_row_re:
  "derives row_re w g g' \<longleftrightarrow>
     (\<exists>k i g1. w = k @ i \<and>
         ((\<exists>d h mi s. k = key_cells d h mi s \<and> key_fields d h mi s \<and> g1 = key_groups g d h mi s)
           \<or> (k = ''|||'' \<and> g1 = g))
        \<and> ((\<exists>n p. i = item_cells n p \<and> item_fields n p \<and> g' = item_groups g1 n p)
           \<or> (i = ''|||'' \<and> g' = g1)))"
  unfolding row_re_def derives.simps(5,6) derives_key_re derives_item_re derives_bars ..

lemma key_group_iff:
  "key_group k \<longleftrightarrow> (\<exists>d h mi s. k = key_cells d h mi s \<and> key_fields d h mi s) \<or> k = ''|||''"
  by (simp add: key_group_def)

lemma item_group_iff:
  "item_group i \<longleftrightarrow> (\<exists>n p. i = item_cells n p \<and> item_fields n p) \<or> i = ''|||''"
  by (simp add: item_group_def)

lemma row_text_iff: "row_text w \<longleftrightarrow> (\<exists>g'. derives row_re w Map.empty g')"
  unfolding row_text_def derives_row_re key_group_iff item_group_iff by blast

lemma group_lookups [simp]:
  "item_groups g n p ''day'' = g ''day''"
  "item_groups g n p ''hour'' = g ''hour''"
  "item_groups g n p ''minute'' = g ''minute''"
  "item_groups g n p ''store'' = g ''store''"
  "item_groups g n p ''item'' = Some n"
  "item_groups g n p ''price'' = Some p"
  "key_groups g d h mi s ''day'' = Some d"
  "key_groups g d h mi s ''hour'' = Some h"
  "key_groups g d h mi s ''minute'' = Some mi"
  "key_groups g d h mi s ''store'' = Some s"
  "key_groups g d h mi s ''item'' = g ''item''"
  "key_groups g d h mi s ''price'' = g ''price''"
  by (simp_all add: item_groups_def key_groups_def)

section \<open>Cells are read in one way\<close>

lemma split_at_first:
  "c \<notin> set xs \<Longrightarrow> c \<notin> set ys \<Longrightarrow> xs @ c # r = ys @ c # r' \<Longrightarrow> xs = ys \<and> r = r'"
proof (induction xs arbitrary: ys)
  case Nil
  then show ?case by (cases ys) auto
next
  case (Cons x xs)
  then show ?case by (cases ys) auto
qed

lemma not_bar_set: "list_all not_bar xs \<Longrightarrow> CHR ''|'' \<notin> set xs"
  by (induction xs) (auto simp: not_bar_def)

lemma digits_colon: "list_all is_digit xs \<Longrightarrow> CHR '':'' \<notin> set xs"
  by (induction xs) (auto dest: is_digit_not_special)

lemma digits_bar: "list_all is_digit xs \<Longrightarrow> CHR ''|'' \<notin> set xs"
  by (induction xs) (auto dest: is_digit_not_special)

lemma key_cells_unique:
  assumes a: "key_fields d h mi s" and b: "key_fields d' h' mi' s'"
      and eq: "key_cells d h mi s @ CHR ''|'' # r = key_cells d' h' mi' s' @ CHR ''|'' # r'"
  shows "d = d' \<and> h = h' \<and> mi = mi' \<and> s = s' \<and> r = r'"
proof -
  from a b have nb: "CHR ''|'' \<notin> set d" "CHR ''|'' \<notin> set d'" "CHR ''|'' \<notin> set s" "CHR ''|'' \<notin> set s'"
    "CHR '':'' \<notin> set h" "CHR '':'' \<notin> set h'" "CHR ''|'' \<notin> set mi" "CHR ''|'' \<notin> set mi'"
    by (simp_all add: key_fields_def not_bar_set digits_bar digits_colon)
  from eq have 1: "d @ CHR ''|'' # (h @ CHR '':'' # mi @ CHR ''|'' # s @ CHR ''|'' # r)
                 = d' @ CHR ''|'' # (h' @ CHR '':'' # mi' @ CHR ''|'' # s' @ CHR ''|'' # r')"
    by (simp add: key_cells_def)
  from split_at_first[OF nb(1,2) 1] have d: "d = d'"
    and 2: "h @ CHR '':'' # (mi @ CHR ''|'' # s @ CHR ''|'' # r)
          = h' @ CHR '':'' # (mi' @ CHR ''|'' # s' @ CHR ''|'' # r')" by simp_all
  from split_at_first[OF nb(5,6) 2] have h: "h = h'"
    and 3: "mi @ CHR ''|'' # (s @ CHR ''|'' # r) = mi' @ CHR ''|'' # (s' @ CHR ''|'' # r')"
    by simp_all
  from split_at_first[OF nb(7,8) 3] have mi: "mi = mi'"
    and 4: "s @ CHR ''|'' # r = s' @ CHR ''|'' # r'" by simp_all
  from split_at_first[OF nb(3,4) 4] d h mi show ?thesis by simp
qed

lemma item_cells_unique:
  assumes a: "item_fields n p" and b: "item_fields n' p'"
      and eq: "item_cells n p @ r = item_cells n' p' @ r'"
  shows "n = n' \<and> p = p' \<and> r = r'"
proof -
  from a b have nb: "CHR ''|'' \<notin> set n" "CHR ''|'' \<notin> set n'" "CHR ''|'' \<notin> set p" "CHR ''|'' \<notin> set p'"
    by (simp_all add: item_fields_def not_bar_set signed_digits_no_bar)
  from eq have 1: "n @ CHR ''|'' # (p @ CHR ''|'' # r) = n' @ CHR ''|'' # (p' @ CHR ''|'' # r')"
    by (simp add: item_cells_def)
  from split_at_first[OF nb(1,2) 1] have n: "n = n'"
    and 2: "p @ CHR ''|'' # r = p' @ CHR ''|'' # r'" by simp_all
  from split_at_first[OF nb(3,4) 2] n show ?thesis by simp
qed

lemma key_cells_not_bars:
  assumes "key_fields d h mi s"
  shows "key_cells d h mi s @ r \<noteq> ''|||'' @ r'"
proof -
  from assms obtain c cs where d: "d = c # cs" "is_digit c"
    by (cases d) (auto simp: key_fields_def)
  then have "c \<noteq> CHR ''|''" using is_digit_not_special by blast
  with d show ?thesis by (simp add: key_cells_def)
qed

lemma item_cells_not_bars:
  assumes "item_fields n p"
  shows "item_cells n p @ r \<noteq> ''|||'' @ r'"
proof -
  from assms obtain c cs where n: "n = c # cs" "not_bar c"
    by (cases n) (auto simp: item_fields_def)
  then show ?thesis by (simp add: item_cells_def not_bar_def)
qed

lemma key_cells_inject:
  assumes "key_fields d h mi s" and "key_fields d' h' mi' s'"
      and "key_cells d h mi s = key_cells d' h' mi' s'"
  shows "d = d' \<and> h = h' \<and> mi = mi' \<and> s = s'"
proof -
  from assms(3) have "key_cells d h mi s @ CHR ''|'' # [] = key_cells d' h' mi' s' @ CHR ''|'' # []"
    by simp
  from key_cells_unique[OF assms(1,2) this] show ?thesis by simp
qed

lemma item_group_bar: "item_group i \<Longrightarrow> \<exists>t. i = CHR ''|'' # t"
  by (auto simp: item_group_def item_cells_def)

lemma item_group_unique:
  assumes "item_group i" and "item_group i'" and eq: "i @ r = i' @ r'"
  shows "i = i' \<and> r = r'"
proof -
  from assms(1) consider n p where "i = item_cells n p" "item_fields n p" | "i = ''|||''"
    by (auto simp: item_group_def)
  then show ?thesis
  proof cases
    case 1
    from assms(2) consider n' p' where "i' = item_cells n' p'" "item_fields n' p'" | "i' = ''|||''"
      by (auto simp: item_group_def)
    then show ?thesis
    proof cases
      case 1
      with \<open>i = item_cells n p\<close> \<open>item_fields n p\<close> eq item_cells_unique[of n p n' p' r r']
      show ?thesis by simp
    next
      case 2
      with \<open>i = item_cells n p\<close> \<open>item_fields n p\<close> eq item_cells_not_bars[of n p r r']
      show ?thesis by simp
    qed
  next
    case 2
    from assms(2) consider n' p' where "i' = item_cells n' p'" "item_fields n' p'" | "i' = ''|||''"
      by (auto simp: item_group_def)
    then show ?thesis
    proof cases
      case 1
      with 2 eq item_cells_not_bars[of n' p' r' r] show ?thesis by simp
    next
      case 2
      with \<open>i = ''|||''\<close> eq show ?thesis by simp
    qed
  qed
qed

text \<open>
  A text starts with at most one row text: the key group and the item group at its start
  are determined.
\<close>

lemma row_prefix_unique:
  assumes k: "key_group k" and i: "item_group i" and k': "key_group k'" and i': "item_group i'"
      and eq: "k @ i @ r = k' @ i' @ r'"
  shows "k = k' \<and> i = i' \<and> r = r'"
proof -
  from item_group_bar[OF i] obtain t where t: "i = CHR ''|'' # t" by blast
  from item_group_bar[OF i'] obtain t' where t': "i' = CHR ''|'' # t'" by blast
  have "k = k' \<and> i @ r = i' @ r'"
  proof -
    from k consider d h mi s where "k = key_cells d h mi s" "key_fields d h mi s" | "k = ''|||''"
      by (auto simp: key_group_def)
    then show ?thesis
    proof cases
      case 1
      from k' consider d' h' mi' s' where "k' = key_cells d' h' mi' s'" "key_fields d' h' mi' s'"
        | "k' = ''|||''"
        by (auto simp: key_group_def)
      then show ?thesis
      proof cases
        case 1
        from eq t t' \<open>k = key_cells d h mi s\<close> 1(1)
        have "key_cells d h mi s @ CHR ''|'' # (t @ r) = key_cells d' h' mi' s' @ CHR ''|'' # (t' @ r')"
          by simp
        from key_cells_unique[OF \<open>key_fields d h mi s\<close> 1(2) this] \<open>k = key_cells d h mi s\<close> 1(1) t t'
        show ?thesis by simp
      next
        case 2
        with eq \<open>k = key_cells d h mi s\<close>
        have "key_cells d h mi s @ (i @ r) = ''|||'' @ (i' @ r')" by simp
        with key_cells_not_bars[OF \<open>key_fields d h mi s\<close>] show ?thesis by blast
      qed
    next
      case 2
      from k' consider d' h' mi' s' where "k' = key_cells d' h' mi' s'" "key_fields d' h' mi' s'"
        | "k' = ''|||''"
        by (auto simp: key_group_def)
      then show ?thesis
      proof cases
        case 1
        with eq 2 have "key_cells d' h' mi' s' @ (i' @ r') = ''|||'' @ (i @ r)" by simp
        with key_cells_not_bars[OF 1(2)] show ?thesis by blast
      next
        case 2
        with \<open>k = ''|||''\<close> eq show ?thesis by simp
      qed
    qed
  qed
  with item_group_unique[OF i i'] show ?thesis by blast
qed

subsection \<open>Readable cells\<close>

lemma readable_key_group_bars [simp]: "readable_key_group ''|||''"
  by (simp add: readable_key_group_def)

lemma readable_item_group_bars [simp]: "readable_item_group ''|||''"
  by (simp add: readable_item_group_def)

lemma readable_key_cells:
  assumes "key_fields d h mi s"
  shows "readable_key_group (key_cells d h mi s) \<longleftrightarrow> int (length d) \<le> int_max_str_digits"
proof
  assume "readable_key_group (key_cells d h mi s)"
  then consider d' h' mi' s' where "key_cells d h mi s = key_cells d' h' mi' s'"
      "key_fields d' h' mi' s'" "int (length d') \<le> int_max_str_digits"
    | "key_cells d h mi s = ''|||''"
    by (auto simp: readable_key_group_def)
  then show "int (length d) \<le> int_max_str_digits"
  proof cases
    case 1
    from key_cells_inject[OF assms 1(2,1)] 1(3) show ?thesis by simp
  next
    case 2
    then have "key_cells d h mi s @ [] = ''|||'' @ []" by simp
    with key_cells_not_bars[OF assms] show ?thesis by blast
  qed
next
  assume "int (length d) \<le> int_max_str_digits"
  with assms show "readable_key_group (key_cells d h mi s)"
    unfolding readable_key_group_def by blast
qed

lemma readable_item_cells:
  assumes "item_fields n p"
  shows "readable_item_group (item_cells n p) \<longleftrightarrow> int (digit_count p) \<le> int_max_str_digits"
proof
  assume "readable_item_group (item_cells n p)"
  then consider n' p' where "item_cells n p = item_cells n' p'"
      "item_fields n' p'" "int (digit_count p') \<le> int_max_str_digits"
    | "item_cells n p = ''|||''"
    by (auto simp: readable_item_group_def)
  then show "int (digit_count p) \<le> int_max_str_digits"
  proof cases
    case 1
    from 1(1) have "item_cells n p @ [] = item_cells n' p' @ []" by simp
    from item_cells_unique[OF assms 1(2) this] 1(3) show ?thesis by simp
  next
    case 2
    then have "item_cells n p @ [] = ''|||'' @ []" by simp
    with item_cells_not_bars[OF assms] show ?thesis by blast
  qed
next
  assume "int (digit_count p) \<le> int_max_str_digits"
  with assms show "readable_item_group (item_cells n p)"
    unfolding readable_item_group_def by blast
qed

lemma readable_key_group_imp: "readable_key_group k \<Longrightarrow> key_group k"
  by (auto simp: readable_key_group_def key_group_def)

lemma readable_item_group_imp: "readable_item_group i \<Longrightarrow> item_group i"
  by (auto simp: readable_item_group_def item_group_def)

lemma readable_row_text_imp: "readable_row_text w \<Longrightarrow> row_text w"
  unfolding readable_row_text_def row_text_def
  using readable_key_group_imp readable_item_group_imp by blast

section \<open>What the line classifier returns\<close>

lemma table_key_of_cells:
  assumes "key_fields d h mi s" and "g ''day'' = Some d" and "g ''hour'' = Some h"
      and "g ''minute'' = Some mi" and "g ''store'' = Some s"
  shows "table_key_of g n
       = (if int (length d) \<le> int_max_str_digits
          then Inr (Some \<lparr>key_day = int_of_digits d, key_hour = int_of_digits h,
                          key_minute = int_of_digits mi, key_store = s, key_line_number = n\<rparr>)
          else Inl ValueError)"
proof -
  from assms(1) have d: "d \<noteq> []" "list_all is_digit d"
    and h: "h \<noteq> []" "list_all is_digit h" "length h = 2"
    and mi: "mi \<noteq> []" "list_all is_digit mi" "length mi = 2"
    by (auto simp: key_fields_def)
  from py_int_digits[OF h(1,2)] h(3) have 1: "py_int (Some h) = Inr (int_of_digits h)"
    by (simp add: int_max_str_digits_def)
  from py_int_digits[OF mi(1,2)] mi(3) have 2: "py_int (Some mi) = Inr (int_of_digits mi)"
    by (simp add: int_max_str_digits_def)
  from py_int_digits[OF d] 1 2 assms(2-) show ?thesis by (simp add: table_key_of_def)
qed

lemma key_fields_repr_ok:
  assumes "key_fields d h mi s" and "int (length d) \<le> int_max_str_digits" and "printable n"
  shows "repr_ok_key \<lparr>key_day = int_of_digits d, key_hour = int_of_digits h,
                      key_minute = int_of_digits mi, key_store = s, key_line_number = n\<rparr>"
proof -
  from assms(1) have d: "d \<noteq> []" "list_all is_digit d"
    and h: "h \<noteq> []" "list_all is_digit h" "length h = 2"
    and mi: "mi \<noteq> []" "list_all is_digit mi" "length mi = 2"
    by (auto simp: key_fields_def)
  have "printable (int_of_digits h)" using h
    by (intro printable_digits) (simp_all add: int_max_str_digits_def)
  moreover have "printable (int_of_digits mi)" using mi
    by (intro printable_digits) (simp_all add: int_max_str_digits_def)
  moreover have "printable (int_of_digits d)" using d assms(2) by (intro printable_digits)
  ultimately show ?thesis using assms(3) by (simp add: repr_ok_key_def)
qed

text \<open>
  The line after a match: the groups are those of the key group and the item group at
  the start of the text; \<open>int()\<close> reads them when they are readable and raises otherwise.
\<close>

lemma parse_line_Some:
  assumes m: "re_match row_re (line_text line) = Some g" and pn: "printable (line_number line)"
  shows "\<exists>k i rest. line_text line = k @ i @ rest \<and> key_group k \<and> item_group i
           \<and> (if readable_key_group k \<and> readable_item_group i
              then \<exists>kk ii. key_reading (line_number line) k kk
                     \<and> item_reading (line_number line) i ii
                     \<and> parse_line line lg
                         = Inr (Some \<lparr>key = kk, item = ii,
                                      row_line_number = line_number line\<rparr>, lg)
              else parse_line line lg = Inl ValueError)"
proof -
  let ?n = "line_number line"
  from re_match_Some[OF m] obtain w rest where
    w: "line_text line = w @ rest" and d: "derives row_re w Map.empty g" by blast
  from d[unfolded derives_row_re] obtain k i g1 where ki: "w = k @ i"
    and kd: "(\<exists>d h mi s. k = key_cells d h mi s \<and> key_fields d h mi s
                \<and> g1 = key_groups Map.empty d h mi s) \<or> (k = ''|||'' \<and> g1 = Map.empty)"
    and idv: "(\<exists>n p. i = item_cells n p \<and> item_fields n p \<and> g = item_groups g1 n p)
                \<or> (i = ''|||'' \<and> g = g1)"
    by blast
  have key: "key_group k
       \<and> (if readable_key_group k
          then \<exists>kk. key_reading ?n k kk \<and> table_key_of g ?n = Inr kk
                 \<and> (case kk of None \<Rightarrow> True | Some q \<Rightarrow> repr_ok_key q)
          else table_key_of g ?n = Inl ValueError)"
  proof -
    from kd show ?thesis
    proof
      assume "\<exists>d h mi s. k = key_cells d h mi s \<and> key_fields d h mi s
                \<and> g1 = key_groups Map.empty d h mi s"
      then obtain d h mi s where *: "k = key_cells d h mi s" "key_fields d h mi s"
        "g1 = key_groups Map.empty d h mi s" by blast
      from idv * have "g ''day'' = Some d" "g ''hour'' = Some h" "g ''minute'' = Some mi"
          "g ''store'' = Some s" by auto
      note tk = table_key_of_cells[OF *(2) this, of ?n]
      have kg: "key_group k" using *(1,2) unfolding key_group_def by blast
      show ?thesis
      proof (cases "int (length d) \<le> int_max_str_digits")
        case True
        let ?kk = "Some \<lparr>key_day = int_of_digits d, key_hour = int_of_digits h,
                          key_minute = int_of_digits mi, key_store = s, key_line_number = ?n\<rparr>"
        have "key_reading ?n k ?kk" using * True unfolding key_reading_def by blast
        moreover have "table_key_of g ?n = Inr ?kk" using tk True by simp
        moreover have "case ?kk of None \<Rightarrow> True | Some q \<Rightarrow> repr_ok_key q"
          using key_fields_repr_ok[OF *(2) True pn] by simp
        moreover have "readable_key_group k" using *(1) True readable_key_cells[OF *(2)] by simp
        ultimately show ?thesis using kg by auto
      next
        case False
        with tk readable_key_cells[OF *(2)] *(1) kg show ?thesis by simp
      qed
    next
      assume *: "k = ''|||'' \<and> g1 = Map.empty"
      with idv have "g ''day'' = None" by auto
      with * show ?thesis
        by (simp add: key_reading_def table_key_of_def key_group_def)
    qed
  qed
  have itm: "item_group i
       \<and> (if readable_item_group i
          then \<exists>ii. item_reading ?n i ii \<and> table_item_of g ?n = Inr ii
                 \<and> (case ii of None \<Rightarrow> True | Some q \<Rightarrow> repr_ok_item q)
          else table_item_of g ?n = Inl ValueError)"
  proof -
    from idv show ?thesis
    proof
      assume "\<exists>n p. i = item_cells n p \<and> item_fields n p \<and> g = item_groups g1 n p"
      then obtain nm p where *: "i = item_cells nm p" "item_fields nm p" "g = item_groups g1 nm p"
        by blast
      have ig: "item_group i" using *(1,2) unfolding item_group_def by blast
      from *(2) have sd: "signed_digits p" by (simp add: item_fields_def)
      show ?thesis
      proof (cases "int (digit_count p) \<le> int_max_str_digits")
        case True
        with py_int_signed[OF sd] obtain v where v: "py_int (Some p) = Inr v" "printable v"
          by auto
        let ?ii = "Some \<lparr>name = nm, price = v, item_line_number = ?n\<rparr>"
        have "item_reading ?n i ?ii" using * v unfolding item_reading_def by blast
        moreover have "table_item_of g ?n = Inr ?ii" using * v
          by (simp add: table_item_of_def)
        moreover have "case ?ii of None \<Rightarrow> True | Some q \<Rightarrow> repr_ok_item q"
          using v pn by (simp add: repr_ok_item_def)
        moreover have "readable_item_group i" using *(1) True readable_item_cells[OF *(2)] by simp
        ultimately show ?thesis using ig by auto
      next
        case False
        with py_int_signed[OF sd] have "py_int (Some p) = Inl ValueError" by simp
        then have "table_item_of g ?n = Inl ValueError" using *
          by (simp add: table_item_of_def)
        with False readable_item_cells[OF *(2)] *(1) ig show ?thesis by simp
      qed
    next
      assume *: "i = ''|||'' \<and> g = g1"
      from kd * have "g ''item'' = None" by (auto simp: key_groups_def)
      with * show ?thesis by (simp add: item_reading_def table_item_of_def item_group_def)
    qed
  qed
  have res: "if readable_key_group k \<and> readable_item_group i
             then \<exists>kk ii. key_reading ?n k kk \<and> item_reading ?n i ii
                     \<and> parse_line line lg
                         = Inr (Some \<lparr>key = kk, item = ii, row_line_number = ?n\<rparr>, lg)
             else parse_line line lg = Inl ValueError"
  proof (cases "readable_key_group k")
    case False
    with key have "table_key_of g ?n = Inl ValueError" by simp
    with False m pn show ?thesis by (simp add: parse_line_def)
  next
    case True
    with key obtain kk where kk: "key_reading ?n k kk" "table_key_of g ?n = Inr kk"
      "case kk of None \<Rightarrow> True | Some q \<Rightarrow> repr_ok_key q" by auto
    show ?thesis
    proof (cases "readable_item_group i")
      case False
      with itm have "table_item_of g ?n = Inl ValueError" by simp
      with False kk m pn show ?thesis by (simp add: parse_line_def)
    next
      case rd: True
      with itm obtain ii where ii: "item_reading ?n i ii" "table_item_of g ?n = Inr ii"
        "case ii of None \<Rightarrow> True | Some q \<Rightarrow> repr_ok_item q" by auto
      have "repr_ok_row \<lparr>key = kk, item = ii, row_line_number = ?n\<rparr>"
        using kk(3) ii(3) pn by (simp add: repr_ok_row_def)
      with kk ii m pn have "parse_line line lg
          = Inr (Some \<lparr>key = kk, item = ii, row_line_number = ?n\<rparr>, lg)"
        by (simp add: parse_line_def)
      with kk(1) ii(1) True rd show ?thesis by auto
    qed
  qed
  from w ki have "line_text line = k @ i @ rest" by simp
  with key itm res show ?thesis by blast
qed

lemma parse_line_None:
  assumes "re_match row_re (line_text line) = None" and "printable (line_number line)"
  shows "parse_line line lg
       = Inr (None, lg @ [(ERROR, ''failed to parse \"'' @ line_text line @ ''\" at line ''
                                    @ str_text (line_number line))])"
  using assms by (simp add: parse_line_def)

lemma re_match_row_text:
  "re_match row_re s \<noteq> None \<longleftrightarrow> (\<exists>w rest. s = w @ rest \<and> row_text w)"
  unfolding re_match_None row_text_iff by blast

text \<open>
  The three outcomes of the line classifier on a line whose number is printable: no row
  text at the start of the line and an error record; a readable row text at the start
  and the row it stands for; a row text that is not readable and \<open>ValueError\<close>.
\<close>

lemma parse_line_cases:
  assumes pn: "printable (line_number line)"
  shows "(\<not> (\<exists>w rest. line_text line = w @ rest \<and> row_text w)
          \<and> parse_line line lg
              = Inr (None, lg @ [(ERROR, ''failed to parse \"'' @ line_text line
                                          @ ''\" at line '' @ str_text (line_number line))]))
       \<or> ((\<exists>w rest. line_text line = w @ rest \<and> readable_row_text w)
          \<and> (\<exists>k i rest kk ii. line_text line = k @ i @ rest
                \<and> key_reading (line_number line) k kk \<and> item_reading (line_number line) i ii
                \<and> parse_line line lg
                    = Inr (Some \<lparr>key = kk, item = ii,
                                 row_line_number = line_number line\<rparr>, lg)))
       \<or> ((\<exists>w rest. line_text line = w @ rest \<and> row_text w)
          \<and> \<not> (\<exists>w rest. line_text line = w @ rest \<and> readable_row_text w)
          \<and> parse_line line lg = Inl ValueError)"
proof (cases "re_match row_re (line_text line)")
  case None
  then have "\<not> (\<exists>w rest. line_text line = w @ rest \<and> row_text w)"
    using re_match_row_text[of "line_text line"] by simp
  with parse_line_None[OF None pn, of lg] show ?thesis by simp
next
  case (Some g)
  then have rt: "\<exists>w rest. line_text line = w @ rest \<and> row_text w"
    using re_match_row_text[of "line_text line"] by simp
  from parse_line_Some[OF Some pn, of lg] obtain k i rest where
    t: "line_text line = k @ i @ rest" and k: "key_group k" and i: "item_group i"
    and r: "if readable_key_group k \<and> readable_item_group i
            then \<exists>kk ii. key_reading (line_number line) k kk
                   \<and> item_reading (line_number line) i ii
                   \<and> parse_line line lg
                       = Inr (Some \<lparr>key = kk, item = ii,
                                    row_line_number = line_number line\<rparr>, lg)
            else parse_line line lg = Inl ValueError"
    by blast
  show ?thesis
  proof (cases "readable_key_group k \<and> readable_item_group i")
    case True
    then have "readable_row_text (k @ i)" unfolding readable_row_text_def by blast
    with t have "\<exists>w rest. line_text line = w @ rest \<and> readable_row_text w"
      by (intro exI[of _ "k @ i"] exI[of _ rest]) simp
    moreover from r True t have "\<exists>k i rest kk ii. line_text line = k @ i @ rest
                \<and> key_reading (line_number line) k kk \<and> item_reading (line_number line) i ii
                \<and> parse_line line lg
                    = Inr (Some \<lparr>key = kk, item = ii,
                                 row_line_number = line_number line\<rparr>, lg)" by auto
    ultimately show ?thesis by blast
  next
    case False
    have "\<not> (\<exists>w rest. line_text line = w @ rest \<and> readable_row_text w)"
    proof
      assume "\<exists>w rest. line_text line = w @ rest \<and> readable_row_text w"
      then obtain k' i' rest' where t': "line_text line = (k' @ i') @ rest'"
        and k': "readable_key_group k'" and i': "readable_item_group i'"
        unfolding readable_row_text_def by blast
      from t t' have "k @ i @ rest = k' @ i' @ rest'" by simp
      from row_prefix_unique[OF k i readable_key_group_imp[OF k'] readable_item_group_imp[OF i'] this]
        k' i' False show False by simp
    qed
    moreover from r False have "parse_line line lg = Inl ValueError" by simp
    ultimately show ?thesis using rt by blast
  qed
qed

lemma row_text_ends_with_bar:
  assumes "row_text w"
  shows "w \<noteq> [] \<and> last w = CHR ''|''"
proof -
  from assms obtain k i where w: "w = k @ i" and i: "item_group i" by (auto simp: row_text_def)
  from i have "i \<noteq> [] \<and> last i = CHR ''|''"
    by (auto simp: item_group_def item_cells_def)
  with w show ?thesis by simp
qed

text \<open>
  C3 as stated: the pattern is matched against the whole line, so a row followed by
  trailing text is unparseable. On the code \<open>re.match\<close> anchors the pattern at the start
  of the line only: the line below is read as a row although it is no row text.
\<close>

theorem trailing_text_counterexample:
  "parse_line \<lparr>line_text = ''|15|09:30|Store|Widget|500|trailing'', line_number = 3\<rparr> []
     = Inr (Some \<lparr>key = Some \<lparr>key_day = 15, key_hour = 9, key_minute = 30,
                              key_store = ''Store'', key_line_number = 3\<rparr>,
                  item = Some \<lparr>name = ''Widget'', price = 500, item_line_number = 3\<rparr>,
                  row_line_number = 3\<rparr>, [])
   \<and> \<not> row_text ''|15|09:30|Store|Widget|500|trailing''"
proof
  show "parse_line \<lparr>line_text = ''|15|09:30|Store|Widget|500|trailing'', line_number = 3\<rparr> []
     = Inr (Some \<lparr>key = Some \<lparr>key_day = 15, key_hour = 9, key_minute = 30,
                              key_store = ''Store'', key_line_number = 3\<rparr>,
                  item = Some \<lparr>name = ''Widget'', price = 500, item_line_number = 3\<rparr>,
                  row_line_number = 3\<rparr>, [])"
    by code_simp
  show "\<not> row_text ''|15|09:30|Store|Widget|500|trailing''"
  proof
    assume "row_text ''|15|09:30|Store|Widget|500|trailing''"
    from row_text_ends_with_bar[OF this] show False by simp
  qed
qed

text \<open>
  C3, amended. The line classifier matches the grammar at the start of the line. For a
  line whose number has at most 4300 digits: the line is classified as a row exactly
  when some prefix of its text is one key group (the key cells, or three bars) followed
  by one item group (the item cells, or three bars) in which the day and the price have
  at most 4300 digits each, whatever text follows; and the line is unparseable, with an
  error record, exactly when no prefix of its text is a key group followed by an item
  group.
\<close>

theorem parse_line_accepts_row_prefix:
  assumes "printable (line_number line)"
  shows "((\<exists>row. parse_line line lg = Inr (Some row, lg))
            \<longleftrightarrow> (\<exists>w rest. line_text line = w @ rest \<and> readable_row_text w))
       \<and> (parse_line line lg
             = Inr (None, lg @ [(ERROR, ''failed to parse \"'' @ line_text line
                                         @ ''\" at line '' @ str_text (line_number line))])
          \<longleftrightarrow> \<not> (\<exists>w rest. line_text line = w @ rest \<and> row_text w))"
proof -
  let ?none = "Inr (None, lg @ [(ERROR, ''failed to parse \"'' @ line_text line
                                         @ ''\" at line '' @ str_text (line_number line))])"
  let ?row = "\<exists>w rest. line_text line = w @ rest \<and> row_text w"
  let ?readable = "\<exists>w rest. line_text line = w @ rest \<and> readable_row_text w"
  have imp: "?readable \<Longrightarrow> ?row" using readable_row_text_imp by blast
  from parse_line_cases[OF assms, of lg]
  consider (none) "\<not> ?row" "parse_line line lg = ?none"
    | (row) "?readable" "\<exists>row. parse_line line lg = Inr (Some row, lg)"
    | (raise) "?row" "\<not> ?readable" "parse_line line lg = Inl ValueError"
    by blast
  then show ?thesis
  proof cases
    case none
    with imp show ?thesis by auto
  next
    case row
    with imp show ?thesis by auto
  next
    case raise
    then show ?thesis by auto
  qed
qed

theorem parse_line_accepts_row_prefix_witness:
  "printable 6
   \<and> parse_line \<lparr>line_text = ''||||Gadget|300|and more'', line_number = 6\<rparr> []
       = Inr (Some \<lparr>key = None,
                    item = Some \<lparr>name = ''Gadget'', price = 300, item_line_number = 6\<rparr>,
                    row_line_number = 6\<rparr>, [])
   \<and> (\<exists>w rest. ''||||Gadget|300|and more'' = w @ rest \<and> readable_row_text w)
   \<and> (\<exists>w rest. ''||||Gadget|300|and more'' = w @ rest \<and> row_text w)"
proof -
  let ?line = "\<lparr>line_text = ''||||Gadget|300|and more'', line_number = 6\<rparr>"
  have 1: "printable (line_number ?line)" by code_simp
  have 2: "parse_line ?line []
       = Inr (Some \<lparr>key = None,
                    item = Some \<lparr>name = ''Gadget'', price = 300, item_line_number = 6\<rparr>,
                    row_line_number = 6\<rparr>, [])" by code_simp
  from parse_line_accepts_row_prefix[OF 1, of "[]"] 1 2 show ?thesis by auto
qed

text \<open>
  The outcome that the two equivalences leave: the classifier raises \<open>ValueError\<close> exactly
  when the line number is not printable, or the row text at the start of the line has a
  day or a price of more than 4300 digits.
\<close>

lemma parse_line_raises:
  "parse_line line lg = Inl e \<longleftrightarrow>
     e = ValueError
     \<and> (\<not> printable (line_number line)
        \<or> ((\<exists>w rest. line_text line = w @ rest \<and> row_text w)
           \<and> \<not> (\<exists>w rest. line_text line = w @ rest \<and> readable_row_text w)))"
proof (cases "printable (line_number line)")
  case False
  then have "parse_line line lg = Inl ValueError" by (simp add: parse_line_def)
  with False show ?thesis by auto
next
  case True
  have imp: "(\<exists>w rest. line_text line = w @ rest \<and> readable_row_text w)
      \<Longrightarrow> (\<exists>w rest. line_text line = w @ rest \<and> row_text w)"
    using readable_row_text_imp by blast
  from parse_line_cases[OF True, of lg] True imp show ?thesis by auto
qed

section \<open>Reading back the rows of a receipt\<close>

text \<open>The line classifier on a text that starts with a key group and an item group.\<close>

lemma parse_line_row_text:
  assumes k: "key_group k" and i: "item_group i" and pn: "printable n"
  shows "if readable_key_group k \<and> readable_item_group i
         then \<exists>kk ii. key_reading n k kk \<and> item_reading n i ii
                \<and> parse_line \<lparr>line_text = k @ i @ rest, line_number = n\<rparr> lg
                    = Inr (Some \<lparr>key = kk, item = ii, row_line_number = n\<rparr>, lg)
         else parse_line \<lparr>line_text = k @ i @ rest, line_number = n\<rparr> lg = Inl ValueError"
proof -
  let ?line = "\<lparr>line_text = k @ i @ rest, line_number = n\<rparr>"
  from k i have "row_text (k @ i)" unfolding row_text_def by blast
  then have "\<exists>w r. line_text ?line = w @ r \<and> row_text w"
    by (intro exI[of _ "k @ i"] exI[of _ rest]) simp
  then have "re_match row_re (line_text ?line) \<noteq> None"
    using re_match_row_text[of "line_text ?line"] by blast
  then obtain g where g: "re_match row_re (line_text ?line) = Some g" by auto
  have pn': "printable (line_number ?line)" using pn by simp
  have "\<exists>k0 i0 rest0. k @ i @ rest = k0 @ i0 @ rest0 \<and> key_group k0 \<and> item_group i0
         \<and> (if readable_key_group k0 \<and> readable_item_group i0
            then \<exists>kk ii. key_reading n k0 kk \<and> item_reading n i0 ii
                   \<and> parse_line ?line lg
                       = Inr (Some \<lparr>key = kk, item = ii, row_line_number = n\<rparr>, lg)
            else parse_line ?line lg = Inl ValueError)"
    using parse_line_Some[OF g pn', of lg] unfolding MonthlyReportLine.select_convs .
  then obtain k0 i0 rest0 where
    t: "k @ i @ rest = k0 @ i0 @ rest0" and k0: "key_group k0" and i0: "item_group i0"
    and r: "if readable_key_group k0 \<and> readable_item_group i0
            then \<exists>kk ii. key_reading n k0 kk \<and> item_reading n i0 ii
                   \<and> parse_line ?line lg
                       = Inr (Some \<lparr>key = kk, item = ii, row_line_number = n\<rparr>, lg)
            else parse_line ?line lg = Inl ValueError"
    by blast
  from row_prefix_unique[OF k i k0 i0 t] have "k0 = k" "i0 = i" by simp_all
  from r[unfolded this] show ?thesis .
qed

lemma key_reading_cells:
  assumes "key_fields d h mi s" and "key_reading n (key_cells d h mi s) kk"
  shows "kk = Some \<lparr>key_day = int_of_digits d, key_hour = int_of_digits h,
                    key_minute = int_of_digits mi, key_store = s, key_line_number = n\<rparr>"
  using assms(2) unfolding key_reading_def
proof (elim disjE exE conjE)
  fix d' h' mi' s'
  assume *: "key_cells d h mi s = key_cells d' h' mi' s'" "key_fields d' h' mi' s'"
    "kk = Some \<lparr>key_day = int_of_digits d', key_hour = int_of_digits h',
                key_minute = int_of_digits mi', key_store = s', key_line_number = n\<rparr>"
  from key_cells_inject[OF assms(1) *(2,1)] *(3) show ?thesis by simp
next
  assume "key_cells d h mi s = ''|||''"
  then have "key_cells d h mi s @ [] = ''|||'' @ []" by simp
  with key_cells_not_bars[OF assms(1)] show ?thesis by blast
qed

lemma key_reading_bars:
  assumes "key_reading n ''|||'' kk"
  shows "kk = None"
  using assms unfolding key_reading_def
proof (elim disjE exE conjE)
  fix d' h' mi' s'
  assume *: "''|||'' = key_cells d' h' mi' s'" "key_fields d' h' mi' s'"
  then have "key_cells d' h' mi' s' @ [] = ''|||'' @ []" by simp
  with key_cells_not_bars[OF *(2)] show ?thesis by blast
qed

lemma item_reading_cells:
  assumes f: "item_fields nm p" and v: "py_int (Some p) = Inr v"
      and rd: "item_reading n (item_cells nm p) ii"
  shows "ii = Some \<lparr>name = nm, price = v, item_line_number = n\<rparr>"
  using rd unfolding item_reading_def
proof (elim disjE exE conjE)
  fix nm' p' v'
  assume *: "item_cells nm p = item_cells nm' p'" "item_fields nm' p'"
    "py_int (Some p') = Inr v'" "ii = Some \<lparr>name = nm', price = v', item_line_number = n\<rparr>"
  from *(1) have "item_cells nm p @ [] = item_cells nm' p' @ []" by simp
  from item_cells_unique[OF f *(2) this] * v show ?thesis by simp
next
  assume "item_cells nm p = ''|||''"
  then have "item_cells nm p @ [] = ''|||'' @ []" by simp
  with item_cells_not_bars[OF f] show ?thesis by blast
qed

lemma py_int_readable:
  assumes "item_fields nm p" and "py_int (Some p) = Inr v"
  shows "readable_item_group (item_cells nm p)"
proof -
  from assms(1) have "signed_digits p" by (simp add: item_fields_def)
  from py_int_signed[OF this] assms(2) have "int (digit_count p) \<le> int_max_str_digits"
    by (auto split: if_splits)
  with readable_item_cells[OF assms(1)] show ?thesis by simp
qed

lemma parse_line_key_row:
  assumes kf: "key_fields d h mi s" and len: "int (length d) \<le> int_max_str_digits"
      and f: "item_fields nm p" and v: "py_int (Some p) = Inr v" and pn: "printable n"
  shows "parse_line \<lparr>line_text = key_cells d h mi s @ item_cells nm p, line_number = n\<rparr> lg
       = Inr (Some \<lparr>key = Some \<lparr>key_day = int_of_digits d, key_hour = int_of_digits h,
                         key_minute = int_of_digits mi, key_store = s, key_line_number = n\<rparr>,
                     item = Some \<lparr>name = nm, price = v, item_line_number = n\<rparr>,
                     row_line_number = n\<rparr>, lg)"
proof -
  have k: "key_group (key_cells d h mi s)" using kf unfolding key_group_def by blast
  have i: "item_group (item_cells nm p)" using f unfolding item_group_def by blast
  have rk: "readable_key_group (key_cells d h mi s)" using readable_key_cells[OF kf] len by simp
  have ri: "readable_item_group (item_cells nm p)" by (rule py_int_readable[OF f v])
  from parse_line_row_text[OF k i pn, of "[]" lg] rk ri obtain kk ii where
    kr: "key_reading n (key_cells d h mi s) kk" and ir: "item_reading n (item_cells nm p) ii"
    and pl: "parse_line \<lparr>line_text = key_cells d h mi s @ item_cells nm p, line_number = n\<rparr> lg
               = Inr (Some \<lparr>key = kk, item = ii, row_line_number = n\<rparr>, lg)"
    by auto
  from key_reading_cells[OF kf kr] item_reading_cells[OF f v ir] pl show ?thesis by simp
qed

lemma parse_line_item_row:
  assumes f: "item_fields nm p" and v: "py_int (Some p) = Inr v" and pn: "printable n"
  shows "parse_line \<lparr>line_text = ''|||'' @ item_cells nm p, line_number = n\<rparr> lg
       = Inr (Some \<lparr>key = None, item = Some \<lparr>name = nm, price = v, item_line_number = n\<rparr>,
                     row_line_number = n\<rparr>, lg)"
proof -
  have k: "key_group ''|||''" by (simp add: key_group_def)
  have i: "item_group (item_cells nm p)" using f unfolding item_group_def by blast
  have ri: "readable_item_group (item_cells nm p)" by (rule py_int_readable[OF f v])
  from parse_line_row_text[OF k i pn, of "[]" lg] ri obtain kk ii where
    kr: "key_reading n ''|||'' kk" and ir: "item_reading n (item_cells nm p) ii"
    and pl: "parse_line \<lparr>line_text = ''|||'' @ item_cells nm p, line_number = n\<rparr> lg
               = Inr (Some \<lparr>key = kk, item = ii, row_line_number = n\<rparr>, lg)"
    by auto
  from key_reading_bars[OF kr] item_reading_cells[OF f v ir] pl show ?thesis by simp
qed

text \<open>
  A price cell of more than 4300 digits: the pattern matches it and \<open>int()\<close> raises, as
  on the line \<open>||||a|\<close> followed by 4301 zeros and a bar.
\<close>

lemma parse_line_long_price:
  assumes f: "item_fields nm p" and long: "int_max_str_digits < int (digit_count p)"
      and pn: "printable n"
  shows "parse_line \<lparr>line_text = ''|||'' @ item_cells nm p @ rest, line_number = n\<rparr> lg
       = Inl ValueError"
proof -
  have k: "key_group ''|||''" by (simp add: key_group_def)
  have i: "item_group (item_cells nm p)" using f unfolding item_group_def by blast
  have "\<not> readable_item_group (item_cells nm p)" using readable_item_cells[OF f] long by simp
  with parse_line_row_text[OF k i pn, of rest lg] show ?thesis by simp
qed

lemma parse_line_long_zeros:
  "parse_line \<lparr>line_text = ''||||a|'' @ replicate 4301 CHR ''0'' @ ''|'', line_number = 1\<rparr> lg
     = Inl ValueError"
proof -
  have z: "list_all is_digit (replicate 4301 CHR ''0'')"
    by (simp add: list_all_iff is_digit_zero)
  have "signed_digits (replicate 4301 CHR ''0'')"
    unfolding signed_digits_def using z by (intro exI[of _ "replicate 4301 CHR ''0''"]) simp
  then have f: "item_fields ''a'' (replicate 4301 CHR ''0'')"
    by (simp add: item_fields_def not_bar_def)
  have "digit_count (replicate 4301 CHR ''0'') = 4301"
    using digit_count_digits[OF _ z] by simp
  then have long: "int_max_str_digits < int (digit_count (replicate 4301 CHR ''0''))"
    by (simp add: int_max_str_digits_def)
  have pn: "printable 1" by code_simp
  from parse_line_long_price[OF f long pn, of "[]" lg] show ?thesis
    by (simp add: item_cells_def)
qed

text \<open>
  The renderer on a price it cannot format, such as \<open>10 ^ 4300\<close>: \<open>to_table_rows\<close> raises.
\<close>

lemma to_table_rows_long_price:
  assumes "it \<in> set (items r)" and "\<not> printable (price it)"
  shows "to_table_rows r = Inl ValueError"
proof -
  from assms have "\<not> rows_printable r" by (auto simp: rows_printable_def list_all_iff)
  then show ?thesis by (simp add: to_table_rows_eq)
qed

lemma to_table_rows_power_price:
  assumes "int_max_str_digits \<le> int k"
  shows "to_table_rows (r\<lparr>items := [\<lparr>name = nm, price = 10 ^ k, item_line_number = l\<rparr>]\<rparr>)
       = Inl ValueError"
proof -
  let ?it = "\<lparr>name = nm, price = 10 ^ k, item_line_number = l\<rparr>"
  have "\<not> printable (price ?it)" using assms printable_power[of k] by simp
  moreover have "?it \<in> set (items (r\<lparr>items := [?it]\<rparr>))" by simp
  ultimately show ?thesis by (rule to_table_rows_long_price[rotated])
qed

lemma rows_text_nth:
  assumes "i < length (items r)"
  shows "rows_text r ! i = (if i = 0 then key_row r (items r ! 0) else item_row (items r ! i))"
proof (cases "items r")
  case Nil
  with assms show ?thesis by simp
next
  case (Cons it its)
  with assms show ?thesis by (cases i) (simp_all add: rows_text_def)
qed

lemma str_text_digits:
  "0 \<le> d \<Longrightarrow> str_text d \<noteq> [] \<and> list_all is_digit (str_text d) \<and> int_of_digits (str_text d) = d"
  by (simp add: str_text_def decimal_digits int_of_digits_decimal)

lemma not_bar_iff: "list_all not_bar xs \<longleftrightarrow> CHR ''|'' \<notin> set xs"
  by (induction xs) (auto simp: not_bar_def)

text \<open>
  C8 as stated: every receipt with items, whose store and item names are non-empty and
  free of bars, is read back from its table rows. On the code a negative day, or an hour
  of three digits, is rendered to text that the pattern does not match.
\<close>

theorem round_trip_counterexample:
  "to_table_rows (receipt_15\<lparr>day := - 1\<rparr>) = Inr [''|-1|18:05|Other|Thing|-20|'']
   \<and> parse_line \<lparr>line_text = ''|-1|18:05|Other|Thing|-20|'', line_number = 8\<rparr> []
     = Inr (None, [(ERROR, ''failed to parse \"|-1|18:05|Other|Thing|-20|\" at line 8'')])
   \<and> to_table_rows (receipt_15\<lparr>hour := 100\<rparr>) = Inr [''|15|100:05|Other|Thing|-20|'']
   \<and> parse_line \<lparr>line_text = ''|15|100:05|Other|Thing|-20|'', line_number = 8\<rparr> []
     = Inr (None, [(ERROR, ''failed to parse \"|15|100:05|Other|Thing|-20|\" at line 8'')])"
  by code_simp

text \<open>
  C8, amended. For every receipt whose store and item names are non-empty and contain no
  bar, whose day is not negative, whose hour and minute lie between 0 and 99, and whose
  day and prices have at most 4300 digits each, \<open>to_table_rows\<close> returns one table row
  per item, and the line classifier (on a line whose number has at most 4300 digits)
  reads each of them back: the first row gives the key fields (day, hour, minute, store)
  and every row gives its item (name, price), in order.
\<close>

theorem to_table_rows_round_trip:
  assumes i: "i < length (items r)"
      and st: "store r \<noteq> []" "CHR ''|'' \<notin> set (store r)"
      and nm: "\<forall>it\<in>set (items r). name it \<noteq> [] \<and> CHR ''|'' \<notin> set (name it)"
      and d: "0 \<le> day r"
      and h: "0 \<le> hour r" "hour r < 100"
      and mi: "0 \<le> minute r" "minute r < 100"
      and pd: "printable (day r)"
      and pp: "\<forall>it\<in>set (items r). printable (price it)"
      and pn: "printable n"
  shows "\<exists>rows. to_table_rows r = Inr rows \<and> length rows = length (items r)
       \<and> parse_line \<lparr>line_text = rows ! i, line_number = n\<rparr> lg
         = Inr (Some \<lparr>key = (if i = 0
                              then Some \<lparr>key_day = day r, key_hour = hour r,
                                         key_minute = minute r, key_store = store r,
                                         key_line_number = n\<rparr>
                              else None),
                       item = Some \<lparr>name = name (items r ! i), price = price (items r ! i),
                                    item_line_number = n\<rparr>,
                       row_line_number = n\<rparr>, lg)"
proof -
  let ?it = "items r ! i"
  from i have mem: "?it \<in> set (items r)" by simp
  with nm have f: "item_fields (name ?it) (str_text (price ?it))"
    by (simp add: item_fields_def not_bar_iff signed_digits_str_text)
  from mem pp have v: "py_int (Some (str_text (price ?it))) = Inr (price ?it)"
    by (intro py_int_str_text) simp
  have kf: "key_fields (str_text (day r)) (format_0_text 2 (hour r))
              (format_0_text 2 (minute r)) (store r)"
    using st str_text_digits[OF d] format_0_2[OF h] format_0_2[OF mi]
    by (simp add: key_fields_def not_bar_iff)
  have vals: "int_of_digits (str_text (day r)) = day r"
    "int_of_digits (format_0_text 2 (hour r)) = hour r"
    "int_of_digits (format_0_text 2 (minute r)) = minute r"
    using str_text_digits[OF d] format_0_2[OF h] format_0_2[OF mi] by simp_all
  have len: "int (length (str_text (day r))) \<le> int_max_str_digits"
    using pd d by (simp add: printable_def str_text_def)
  have "rows_printable r"
    using pd pp printable_small[OF h] printable_small[OF mi]
    by (simp add: rows_printable_def list_all_iff)
  from to_table_rows_printable[OF this] have rows: "to_table_rows r = Inr (rows_text r)" .
  have "parse_line \<lparr>line_text = rows_text r ! i, line_number = n\<rparr> lg
         = Inr (Some \<lparr>key = (if i = 0
                              then Some \<lparr>key_day = day r, key_hour = hour r,
                                         key_minute = minute r, key_store = store r,
                                         key_line_number = n\<rparr>
                              else None),
                       item = Some \<lparr>name = name (items r ! i), price = price (items r ! i),
                                    item_line_number = n\<rparr>,
                       row_line_number = n\<rparr>, lg)"
  proof (cases "i = 0")
    case True
    with i have "rows_text r ! i = key_row r ?it" by (simp add: rows_text_nth)
    with parse_line_key_row[OF kf len f v pn, of lg] vals True show ?thesis
      by (simp add: key_row_def)
  next
    case False
    with i have "rows_text r ! i = item_row ?it" by (simp add: rows_text_nth)
    with parse_line_item_row[OF f v pn, of lg] False show ?thesis
      by (simp add: item_row_def)
  qed
  with rows length_rows_text[of r] show ?thesis by simp
qed

theorem to_table_rows_round_trip_witness:
  "1 < length (items receipt_16)
   \<and> store receipt_16 \<noteq> [] \<and> CHR ''|'' \<notin> set (store receipt_16)
   \<and> map name (items receipt_16) = [''Widget'', ''Gadget'']
   \<and> printable (day receipt_16) \<and> printable 6
   \<and> (\<exists>rows. to_table_rows receipt_16 = Inr rows
         \<and> length rows = length (items receipt_16)
         \<and> parse_line \<lparr>line_text = rows ! 1, line_number = 6\<rparr> []
           = Inr (Some \<lparr>key = None,
                        item = Some \<lparr>name = ''Gadget'', price = 300, item_line_number = 6\<rparr>,
                        row_line_number = 6\<rparr>, []))"
proof -
  have 1: "1 < length (items receipt_16)" by (simp add: receipt_16_def)
  have 2: "store receipt_16 \<noteq> []" "CHR ''|'' \<notin> set (store receipt_16)"
    by (simp_all add: receipt_16_def)
  have 3: "\<forall>it\<in>set (items receipt_16). name it \<noteq> [] \<and> CHR ''|'' \<notin> set (name it)"
    by (simp add: receipt_16_def)
  have 4: "0 \<le> day receipt_16" "0 \<le> hour receipt_16" "hour receipt_16 < 100"
    "0 \<le> minute receipt_16" "minute receipt_16 < 100"
    by (simp_all add: receipt_16_def)
  have 5: "map name (items receipt_16) = [''Widget'', ''Gadget'']"
    by (simp add: receipt_16_def)
  have 6: "printable (day receipt_16)" by code_simp
  have "printable 500" "printable 300" by code_simp+
  then have 7: "\<forall>it\<in>set (items receipt_16). printable (price it)"
    by (simp add: receipt_16_def)
  have 8: "printable 6" by code_simp
  from to_table_rows_round_trip[OF 1 2 3 4 6 7 8, of "[]"] 1 2 5 6 8 show ?thesis
    by (simp add: receipt_16_def)
qed

section \<open>Inputs on which \<open>parse_payment\<close> raises\<close>

text \<open>
  C1. The claim: for every sequence of lines \<open>parse_payment\<close> returns a list of receipts
  and never raises. On the code it raises \<open>IndexError\<close>, from \<open>self._receipts[-1]\<close> in
  \<open>result\<close>, for a table whose body is closed by a blank line before any row, and for a
  table that holds only an item row.
\<close>

theorem parse_payment_raises_IndexError:
  "parse_payment 2024 4
     [\<lparr>line_text = section_heading, line_number = 1\<rparr>,
      \<lparr>line_text = header, line_number = 2\<rparr>,
      \<lparr>line_text = alignment, line_number = 3\<rparr>,
      \<lparr>line_text = [], line_number = 4\<rparr>] [] = Inl IndexError
   \<and> parse_payment 2024 4
     [\<lparr>line_text = section_heading, line_number = 1\<rparr>,
      \<lparr>line_text = header, line_number = 2\<rparr>,
      \<lparr>line_text = alignment, line_number = 3\<rparr>,
      \<lparr>line_text = ''||||Widget|500|'', line_number = 4\<rparr>] [] = Inl IndexError"
  by code_simp

text \<open>
  C6. The claim: a flushed candidate whose fields are no calendar date and time gets an
  error record and is left out of the result. For a candidate that has no item the code
  raises \<open>IndexError\<close> instead, while it builds the text of that error record
  (\<open>to_table_rows()[0]\<close> of a receipt without items): here day 31 of April.
\<close>

theorem invalid_date_without_item_raises:
  "parse_payment 2024 4
     [\<lparr>line_text = section_heading, line_number = 1\<rparr>,
      \<lparr>line_text = header, line_number = 2\<rparr>,
      \<lparr>line_text = alignment, line_number = 3\<rparr>,
      \<lparr>line_text = ''||||||'', line_number = 4\<rparr>,
      \<lparr>line_text = ''|31|09:30|Store|||'', line_number = 5\<rparr>,
      \<lparr>line_text = ''||||||'', line_number = 6\<rparr>] [] = Inl IndexError"
  by code_simp

text \<open>
  A day that does not fit a C \<open>int\<close>: \<open>datetime.datetime\<close> raises \<open>OverflowError\<close>, which
  the handler of \<open>_push_receipt\<close> does not catch, so \<open>parse_payment\<close> raises although the
  candidate has an item.
\<close>

lemma day_beyond_c_int_raises:
  "parse_payment 2024 4
     [\<lparr>line_text = section_heading, line_number = 1\<rparr>,
      \<lparr>line_text = header, line_number = 2\<rparr>,
      \<lparr>line_text = alignment, line_number = 3\<rparr>,
      \<lparr>line_text = ''||||||'', line_number = 4\<rparr>,
      \<lparr>line_text = ''|2147483648|09:30|Store|Widget|500|'', line_number = 5\<rparr>,
      \<lparr>line_text = ''||||||'', line_number = 6\<rparr>] [] = Inl OverflowError"
  by code_simp

section \<open>A receipt without items\<close>

text \<open>
  C10. A key row with the item placeholder, followed by an empty row, gives a receipt
  whose list of items is empty; the \<open>last_line_number\<close> of a receipt without items is the
  line before its key row.
\<close>

theorem receipt_without_items:
  "parse_payment 2024 4
     [\<lparr>line_text = section_heading, line_number = 1\<rparr>,
      \<lparr>line_text = header, line_number = 2\<rparr>,
      \<lparr>line_text = alignment, line_number = 3\<rparr>,
      \<lparr>line_text = ''||||||'', line_number = 4\<rparr>,
      \<lparr>line_text = ''|15|09:30|Store|||'', line_number = 5\<rparr>,
      \<lparr>line_text = ''||||||'', line_number = 6\<rparr>] []
    = Inr ([\<lparr>year = 2024, month = 4, day = 15, hour = 9, minute = 30, store = ''Store'',
             items = [], receipt_line_number = 5\<rparr>], [])
   \<and> last_line_number (r\<lparr>items := []\<rparr>) = receipt_line_number r - 1"
proof
  show "parse_payment 2024 4
     [\<lparr>line_text = section_heading, line_number = 1\<rparr>,
      \<lparr>line_text = header, line_number = 2\<rparr>,
      \<lparr>line_text = alignment, line_number = 3\<rparr>,
      \<lparr>line_text = ''||||||'', line_number = 4\<rparr>,
      \<lparr>line_text = ''|15|09:30|Store|||'', line_number = 5\<rparr>,
      \<lparr>line_text = ''||||||'', line_number = 6\<rparr>] []
    = Inr ([\<lparr>year = 2024, month = 4, day = 15, hour = 9, minute = 30, store = ''Store'',
             items = [], receipt_line_number = 5\<rparr>], [])"
    by code_simp
  show "last_line_number (r\<lparr>items := []\<rparr>) = receipt_line_number r - 1"
    by (simp add: last_line_number_def)
qed

end
